theory Spec2Isabelle
  imports Main "HOL-Library.AList" "HOL-Library.Stream"
begin

text \<open>
  Yggdrasil (\<open>Frank_Draft5.py\<close>) keeps a catalog of songs, genre to artist to album to
  song, in a global dictionary, and saves it to and loads it from a JSON file. This
  theory embeds the functions of the catalog (\<open>add_song\<close>, the \<open>random_\<close> functions,
  the subscripts of \<open>enter_bragi\<close>), \<open>save_yggdrasil\<close> and \<open>load_yggdrasil\<close>,
  together with what they use of Python and its standard library (dictionaries,
  \<open>random.choice\<close>, \<open>json\<close>), and settles the properties the specification states
  of them. The provider of metadata (Spotify) and the prompt loop are outside it.
\<close>

section \<open>Python values\<close>

text \<open>
  The global \<open>Yggdrasil\<close> of \<open>Frank_Draft5.py\<close> is a dictionary of dictionaries; after
  \<open>load_yggdrasil\<close> it is whatever object the JSON document decodes to. The values
  of the model are the Python objects a JSON document denotes: \<open>None\<close>, booleans,
  integers (unbounded), strings, lists and dictionaries with string keys. Floating
  point numbers are left out of the model.

  A dictionary is an association list in insertion order. Python keeps the keys of a
  dictionary unique; \<open>wf_pyval\<close> is that invariant. Strings are Isabelle strings,
  whose characters are the code points 0..255.
\<close>

datatype pyval =
    PNone
  | PBool bool
  | PInt int
  | PStr string
  | PList "pyval list"
  | PDict "(string \<times> pyval) list"

datatype json_fault =
    Expecting_value
  | Extra_data
  | Expecting_property_name
  | Expecting_colon
  | Expecting_comma
  | Unterminated_string
  | Invalid_control_character
  | Invalid_escape
  | Invalid_unicode_escape

datatype py_error =
    KeyError string
  | TypeError
  | AttributeError
  | IndexError
  | JSONDecodeError json_fault
  | Not_modelled string

text \<open>
  The names of the class of an exception and of its base classes, as Python defines
  them: what an \<open>except\<close> clause can name to catch it. The program defines no exception
  class of its own. (\<open>Not_modelled\<close> is no exception.)
\<close>

fun mro :: "py_error \<Rightarrow> string list" where
  "mro (KeyError k) = [''KeyError'', ''LookupError'', ''Exception'', ''BaseException'']"
| "mro IndexError = [''IndexError'', ''LookupError'', ''Exception'', ''BaseException'']"
| "mro TypeError = [''TypeError'', ''Exception'', ''BaseException'']"
| "mro AttributeError = [''AttributeError'', ''Exception'', ''BaseException'']"
| "mro (JSONDecodeError f) = [''JSONDecodeError'', ''ValueError'', ''Exception'', ''BaseException'']"
| "mro (Not_modelled m) = []"

fun wf_pyval :: "pyval \<Rightarrow> bool" where
  "wf_pyval (PList xs) = list_all wf_pyval xs"
| "wf_pyval (PDict kvs) = (distinct (map fst kvs) \<and> list_all wf_pyval (map snd kvs))"
| "wf_pyval _ = True"

definition py_bind :: "py_error + 'a \<Rightarrow> ('a \<Rightarrow> py_error + 'b) \<Rightarrow> py_error + 'b" where
  "py_bind m f = (case m of Inl e \<Rightarrow> Inl e | Inr x \<Rightarrow> f x)"

text \<open>\<open>bool(v)\<close>: the truth value Python's \<open>or\<close> and \<open>not\<close> test.\<close>

fun truthy :: "pyval \<Rightarrow> bool" where
  "truthy PNone = False"
| "truthy (PBool b) = b"
| "truthy (PInt i) = (i \<noteq> 0)"
| "truthy (PStr s) = (s \<noteq> [])"
| "truthy (PList xs) = (xs \<noteq> [])"
| "truthy (PDict kvs) = (kvs \<noteq> [])"

text \<open>\<open>obj[key]\<close> with a string key: a missing key of a dictionary is \<open>KeyError(key)\<close>;
  lists and strings take integer indices only, the other objects no subscript.\<close>

fun getitem :: "pyval \<Rightarrow> string \<Rightarrow> py_error + pyval" where
  "getitem (PDict kvs) k = (case map_of kvs k of None \<Rightarrow> Inl (KeyError k) | Some v \<Rightarrow> Inr v)"
| "getitem _ k = Inl TypeError"

text \<open>\<open>obj[key] = v\<close> with a string key: an existing key keeps its place, a new one
  goes last.\<close>

fun setitem :: "pyval \<Rightarrow> string \<Rightarrow> pyval \<Rightarrow> py_error + pyval" where
  "setitem (PDict kvs) k v = Inr (PDict (AList.update k v kvs))"
| "setitem _ k v = Inl TypeError"

fun is_substring :: "string \<Rightarrow> string \<Rightarrow> bool" where
  "is_substring k [] = (k = [])"
| "is_substring k (c # cs) = (take (length k) (c # cs) = k \<or> is_substring k cs)"

text \<open>\<open>key in obj\<close> with a string key: a key of a dictionary, an element of a list, a
  substring of a string; the other objects are not iterable.\<close>

fun contains :: "pyval \<Rightarrow> string \<Rightarrow> py_error + bool" where
  "contains (PDict kvs) k = Inr (k \<in> set (map fst kvs))"
| "contains (PList xs) k = Inr (PStr k \<in> set xs)"
| "contains (PStr s) k = Inr (is_substring k s)"
| "contains _ k = Inl TypeError"

text \<open>\<open>list(obj.keys())\<close>: only a dictionary has the method.\<close>

fun keys :: "pyval \<Rightarrow> py_error + string list" where
  "keys (PDict kvs) = Inr (map fst kvs)"
| "keys _ = Inl AttributeError"

text \<open>\<open>obj[k1]...[kn]\<close>, evaluated left to right.\<close>

fun subscript :: "pyval \<Rightarrow> string list \<Rightarrow> py_error + pyval" where
  "subscript v [] = Inr v"
| "subscript v (k # ks) = py_bind (getitem v k) (\<lambda>c. subscript c ks)"

text \<open>\<open>obj[k1]...[kn][k] = v\<close>: the target \<open>obj[k1]...[kn]\<close> is evaluated, then its item
  is set. The nested object is changed in place; in the model the objects on the way
  are rebuilt around it. (The objects of the tree are not shared: every node is made by
  a \<open>{}\<close> of \<open>add_song\<close> or by the JSON decoder.)\<close>

fun store :: "pyval \<Rightarrow> string list \<Rightarrow> string \<Rightarrow> pyval \<Rightarrow> py_error + pyval" where
  "store d [] k v = setitem d k v"
| "store d (p # ps) k v =
     py_bind (getitem d p) (\<lambda>c. py_bind (store c ps k v) (\<lambda>c'. setitem d p c'))"

section \<open>The catalog: \<open>add_song\<close>\<close>

text \<open>
  A statement of \<open>add_song\<close> reads the global and either raises or leaves a new value
  of it. \<open>run\<close> executes statements in order: an exception ends the call and leaves the
  global as the statements before it made it.
\<close>

fun run :: "(pyval \<Rightarrow> py_error + pyval) list \<Rightarrow> pyval \<Rightarrow> py_error option \<times> pyval" where
  "run [] Y = (None, Y)"
| "run (s # ss) Y = (case s Y of Inl e \<Rightarrow> (Some e, Y) | Inr Y' \<Rightarrow> run ss Y')"

text \<open>\<open>if k not in Yggdrasil[p1]...[pn]: Yggdrasil[p1]...[pn][k] = {}\<close>\<close>

definition if_absent :: "string list \<Rightarrow> string \<Rightarrow> pyval \<Rightarrow> py_error + pyval" where
  "if_absent path k Y =
     py_bind (subscript Y path) (\<lambda>node.
     py_bind (contains node k) (\<lambda>present.
       if present then Inr Y else store Y path k (PDict [])))"

text \<open>
  \<open>add_song(genre, artist, album, song_name, metadata=None)\<close>, lines 34-42. A call
  without the last argument is the call with \<open>PNone\<close>. The result is the exception
  raised, if any, and the global afterwards.
\<close>

definition add_song ::
  "string \<Rightarrow> string \<Rightarrow> string \<Rightarrow> string \<Rightarrow> pyval \<Rightarrow> pyval \<Rightarrow> py_error option \<times> pyval" where
  "add_song genre artist album song_name metadata =
     run [if_absent [] genre,
          if_absent [genre] artist,
          if_absent [genre, artist] album,
          (\<lambda>Y. store Y [genre, artist, album] song_name
                  (if truthy metadata then metadata else PDict []))]"

section \<open>Reading the catalog\<close>

text \<open>
  \<open>enumerate_keys\<close> is the list of keys a prompt of \<open>enter_bragi\<close> shows
  (\<open>Yggdrasil[genre].keys()\<close>, ...), \<open>lookup\<close> the subscript that reads the record,
  \<open>Yggdrasil[genre][artist][album][song]\<close> (lines 166 and 176).
\<close>

definition enumerate_keys :: "pyval \<Rightarrow> string list \<Rightarrow> py_error + string list" where
  "enumerate_keys Y prefix = py_bind (subscript Y prefix) keys"

definition lookup :: "pyval \<Rightarrow> string \<Rightarrow> string \<Rightarrow> string \<Rightarrow> string \<Rightarrow> py_error + pyval" where
  "lookup Y genre artist album song = subscript Y [genre, artist, album, song]"

text \<open>
  The manual navigation of \<open>enter_bragi\<close>, lines 159-166; the four answers of the user
  are the arguments. On an empty tree it prints a message and returns (lines 159-161):
  the result \<open>None\<close>. Otherwise each prompt lists the keys of the node reached so far, and
  line 166 reads the record, which the lines after it display.
\<close>

definition manual_navigation ::
  "pyval \<Rightarrow> string \<Rightarrow> string \<Rightarrow> string \<Rightarrow> string \<Rightarrow> py_error + pyval option" where
  "manual_navigation Y genre artist album song =
     (if \<not> truthy Y then Inr None
      else
        py_bind (enumerate_keys Y []) (\<lambda>_.
        py_bind (enumerate_keys Y [genre]) (\<lambda>_.
        py_bind (enumerate_keys Y [genre, artist]) (\<lambda>_.
        py_bind (enumerate_keys Y [genre, artist, album]) (\<lambda>_.
        py_bind (lookup Y genre artist album song) (\<lambda>metadata.
          Inr (Some metadata)))))))"

section \<open>Random selection\<close>

text \<open>
  The generator is the stream of its raw draws. \<open>random.choice(seq)\<close> raises
  \<open>IndexError\<close> on an empty sequence, before anything is drawn; otherwise it draws
  an index below \<open>len(seq)\<close>.
\<close>

definition choice :: "'a list \<Rightarrow> nat stream \<Rightarrow> (py_error + 'a) \<times> nat stream" where
  "choice seq g =
     (if seq = [] then (Inl IndexError, g)
      else (Inr (seq ! (shd g mod length seq)), stl g))"

definition choice_of :: "py_error + string list \<Rightarrow> nat stream \<Rightarrow> (py_error + string) \<times> nat stream" where
  "choice_of ks g = (case ks of Inl e \<Rightarrow> (Inl e, g) | Inr seq \<Rightarrow> choice seq g)"

definition random_genre :: "pyval \<Rightarrow> nat stream \<Rightarrow> (py_error + string) \<times> nat stream" where
  "random_genre Y = choice_of (keys Y)"

definition random_artist :: "pyval \<Rightarrow> string \<Rightarrow> nat stream \<Rightarrow> (py_error + string) \<times> nat stream" where
  "random_artist Y genre = choice_of (py_bind (getitem Y genre) keys)"

definition random_album ::
  "pyval \<Rightarrow> string \<Rightarrow> string \<Rightarrow> nat stream \<Rightarrow> (py_error + string) \<times> nat stream" where
  "random_album Y genre artist =
     choice_of (py_bind (py_bind (getitem Y genre) (\<lambda>n. getitem n artist)) keys)"

definition random_song ::
  "pyval \<Rightarrow> string \<Rightarrow> string \<Rightarrow> string \<Rightarrow> nat stream \<Rightarrow> (py_error + string) \<times> nat stream" where
  "random_song Y genre artist album =
     choice_of (py_bind (py_bind (py_bind (getitem Y genre) (\<lambda>n. getitem n artist))
                  (\<lambda>n. getitem n album)) keys)"

section \<open>The shape of a catalog\<close>

text \<open>
  The data model of the specification: a song record is a flat dictionary of scalars;
  an album node maps song titles to records, an artist node albums to album nodes, a
  genre node artists to artist nodes, and the catalog genres to genre nodes.
\<close>

fun is_scalar :: "pyval \<Rightarrow> bool" where
  "is_scalar (PList xs) = False"
| "is_scalar (PDict kvs) = False"
| "is_scalar _ = True"

fun is_record :: "pyval \<Rightarrow> bool" where
  "is_record (PDict kvs) = (distinct (map fst kvs) \<and> list_all is_scalar (map snd kvs))"
| "is_record _ = False"

fun is_node :: "nat \<Rightarrow> pyval \<Rightarrow> bool" where
  "is_node 0 v = is_record v"
| "is_node (Suc n) (PDict kvs) = (distinct (map fst kvs) \<and> list_all (is_node n) (map snd kvs))"
| "is_node (Suc n) _ = False"

definition is_catalog :: "pyval \<Rightarrow> bool" where
  "is_catalog Y = is_node 4 Y"

section \<open>The JSON encoder\<close>

text \<open>
  \<open>json.dump(obj, f, indent=4)\<close> of the standard library, on the values of the model:
  \<open>ensure_ascii\<close> is on, so every character outside the printable ASCII range is
  escaped; a non-empty list or dictionary puts each item on a line of its own, indented
  by four spaces per level; items are separated by a comma, a key and its value by a
  colon and a space.
\<close>

abbreviation DQUOTE :: char where "DQUOTE \<equiv> CHR 0x22"
abbreviation BACKSLASH :: char where "BACKSLASH \<equiv> CHR 0x5C"
abbreviation NEWLINE :: char where "NEWLINE \<equiv> CHR 0x0A"

definition hex_digit :: "nat \<Rightarrow> char" where
  "hex_digit n = (if n < 10 then char_of (48 + n) else char_of (87 + n))"

definition escape_char :: "char \<Rightarrow> string" where
  "escape_char c =
     (if c = DQUOTE then [BACKSLASH, DQUOTE]
      else if c = BACKSLASH then [BACKSLASH, BACKSLASH]
      else if c = NEWLINE then [BACKSLASH, CHR ''n'']
      else if c = CHR 0x0D then [BACKSLASH, CHR ''r'']
      else if c = CHR 0x09 then [BACKSLASH, CHR ''t'']
      else if c = CHR 0x08 then [BACKSLASH, CHR ''b'']
      else if c = CHR 0x0C then [BACKSLASH, CHR ''f'']
      else if 0x20 \<le> (of_char c :: nat) \<and> (of_char c :: nat) \<le> 0x7E then [c]
      else [BACKSLASH, CHR ''u'', CHR ''0'', CHR ''0'',
            hex_digit (of_char c div 16), hex_digit (of_char c mod 16)])"

definition encode_basestring_ascii :: "string \<Rightarrow> string" where
  "encode_basestring_ascii s = DQUOTE # concat (map escape_char s) @ [DQUOTE]"

function show_nat :: "nat \<Rightarrow> string" where
  "show_nat n = (if n < 10 then [char_of (48 + n)] else show_nat (n div 10) @ [char_of (48 + n mod 10)])"
  by pat_completeness auto
termination
  by (relation "measure id") auto

definition show_int :: "int \<Rightarrow> string" where
  "show_int i = (if i < 0 then CHR ''-'' # show_nat (nat (- i)) else show_nat (nat i))"

definition newline_indent :: "nat \<Rightarrow> string" where
  "newline_indent level = NEWLINE # replicate (4 * level) (CHR '' '')"

fun iterencode :: "nat \<Rightarrow> pyval \<Rightarrow> string"
  and iterencode_list :: "nat \<Rightarrow> pyval list \<Rightarrow> string"
  and iterencode_dict :: "nat \<Rightarrow> (string \<times> pyval) list \<Rightarrow> string" where
  "iterencode level PNone = ''null''"
| "iterencode level (PBool b) = (if b then ''true'' else ''false'')"
| "iterencode level (PInt i) = show_int i"
| "iterencode level (PStr s) = encode_basestring_ascii s"
| "iterencode level (PList xs) =
     (if xs = [] then ''[]''
      else ''['' @ newline_indent (Suc level) @ iterencode_list (Suc level) xs
             @ newline_indent level @ '']'')"
| "iterencode level (PDict kvs) =
     (if kvs = [] then ''{}''
      else ''{'' @ newline_indent (Suc level) @ iterencode_dict (Suc level) kvs
             @ newline_indent level @ ''}'')"
| "iterencode_list level [] = []"
| "iterencode_list level [x] = iterencode level x"
| "iterencode_list level (x # y # ys) =
     iterencode level x @ '','' @ newline_indent level @ iterencode_list level (y # ys)"
| "iterencode_dict level [] = []"
| "iterencode_dict level [(k, v)] = encode_basestring_ascii k @ '': '' @ iterencode level v"
| "iterencode_dict level ((k, v) # y # ys) =
     encode_basestring_ascii k @ '': '' @ iterencode level v @ '','' @ newline_indent level
       @ iterencode_dict level (y # ys)"

definition json_dumps :: "pyval \<Rightarrow> string" where
  "json_dumps obj = iterencode 0 obj"

section \<open>The JSON decoder\<close>

text \<open>
  \<open>json.load(f)\<close> of the standard library: \<open>scanstring\<close>, the number pattern,
  \<open>scan_once\<close>, \<open>JSONArray\<close> and \<open>JSONObject\<close> of \<open>json.decoder\<close> and
  \<open>json.scanner\<close>. A document with a number that has a fraction or an exponent, or
  with an escape for a character above U+00FF, denotes a value outside the model: the
  decoder of the model answers \<open>Not_modelled\<close> there. The recursion of
  \<open>scan_once\<close> runs on fuel, one unit per call; \<open>json_loads\<close> gives it more than a
  text of that length can use (\<open>json_loads_no_fuel\<close>). The limits of the interpreter
  (the depth of its recursion, the digits of an integer literal) are not modelled.
\<close>

definition is_ws :: "char \<Rightarrow> bool" where
  "is_ws c = (c = CHR '' '' \<or> c = CHR 0x09 \<or> c = NEWLINE \<or> c = CHR 0x0D)"

definition skip_ws :: "string \<Rightarrow> string" where
  "skip_ws s = dropWhile is_ws s"

definition is_digit :: "char \<Rightarrow> bool" where
  "is_digit c = (48 \<le> (of_char c :: nat) \<and> (of_char c :: nat) \<le> 57)"

definition digit_val :: "char \<Rightarrow> nat" where
  "digit_val c = of_char c - 48"

definition nat_of_digits :: "string \<Rightarrow> nat" where
  "nat_of_digits ds = foldl (\<lambda>a c. 10 * a + digit_val c) 0 ds"

definition hex_val :: "char \<Rightarrow> nat option" where
  "hex_val c =
     (let n = (of_char c :: nat) in
      if 48 \<le> n \<and> n \<le> 57 then Some (n - 48)
      else if 97 \<le> n \<and> n \<le> 102 then Some (n - 87)
      else if 65 \<le> n \<and> n \<le> 70 then Some (n - 55)
      else None)"

definition decode_uXXXX :: "char \<Rightarrow> char \<Rightarrow> char \<Rightarrow> char \<Rightarrow> nat option" where
  "decode_uXXXX a b c d =
     (case (hex_val a, hex_val b, hex_val c, hex_val d) of
        (Some x, Some y, Some z, Some w) \<Rightarrow> Some (4096 * x + 256 * y + 16 * z + w)
      | _ \<Rightarrow> None)"

definition unescape :: "char \<Rightarrow> char option" where
  "unescape e =
     (if e = DQUOTE then Some DQUOTE
      else if e = BACKSLASH then Some BACKSLASH
      else if e = CHR ''/'' then Some (CHR ''/'')
      else if e = CHR ''b'' then Some (CHR 0x08)
      else if e = CHR ''f'' then Some (CHR 0x0C)
      else if e = CHR ''n'' then Some NEWLINE
      else if e = CHR ''r'' then Some (CHR 0x0D)
      else if e = CHR ''t'' then Some (CHR 0x09)
      else None)"

definition cons_char :: "char \<Rightarrow> py_error + string \<times> string \<Rightarrow> py_error + string \<times> string" where
  "cons_char c r = (case r of Inl e \<Rightarrow> Inl e | Inr (s, rest) \<Rightarrow> Inr (c # s, rest))"

fun scanstring :: "string \<Rightarrow> py_error + string \<times> string" where
  "scanstring [] = Inl (JSONDecodeError Unterminated_string)"
| "scanstring (c # cs) =
     (if c = DQUOTE then Inr ([], cs)
      else if c = BACKSLASH then
        (case cs of
           [] \<Rightarrow> Inl (JSONDecodeError Unterminated_string)
         | e # es \<Rightarrow>
             if e = CHR ''u'' then
               (case es of
                  h1 # h2 # h3 # h4 # rest \<Rightarrow>
                    (case decode_uXXXX h1 h2 h3 h4 of
                       None \<Rightarrow> Inl (JSONDecodeError Invalid_unicode_escape)
                     | Some n \<Rightarrow>
                         if n < 256 then cons_char (char_of n) (scanstring rest)
                         else Inl (Not_modelled ''code point above U+00FF''))
                | _ \<Rightarrow> Inl (JSONDecodeError Invalid_unicode_escape))
             else
               (case unescape e of
                  None \<Rightarrow> Inl (JSONDecodeError Invalid_escape)
                | Some ch \<Rightarrow> cons_char ch (scanstring es)))
      else if (of_char c :: nat) < 0x20 then Inl (JSONDecodeError Invalid_control_character)
      else cons_char c (scanstring cs))"

text \<open>NUMBER_RE: \<open>(-?(?:0|[1-9][0-9]*))(\.[0-9]+)?([eE][-+]?[0-9]+)?\<close>\<close>

definition match_integer :: "string \<Rightarrow> (string \<times> string) option" where
  "match_integer s =
     (case s of
        [] \<Rightarrow> None
      | c # cs \<Rightarrow>
          if c = CHR ''0'' then Some ([c], cs)
          else if is_digit c then Some (takeWhile is_digit s, dropWhile is_digit s)
          else None)"

definition match_frac :: "string \<Rightarrow> bool" where
  "match_frac s = (case s of c # d # _ \<Rightarrow> c = CHR ''.'' \<and> is_digit d | _ \<Rightarrow> False)"

definition match_exp :: "string \<Rightarrow> bool" where
  "match_exp s =
     (case s of
        c # d # ds \<Rightarrow>
          (c = CHR ''e'' \<or> c = CHR ''E'') \<and>
          (is_digit d \<or> ((d = CHR ''+'' \<or> d = CHR ''-'') \<and> (case ds of x # _ \<Rightarrow> is_digit x | [] \<Rightarrow> False)))
      | _ \<Rightarrow> False)"

definition match_number :: "string \<Rightarrow> (py_error + pyval \<times> string) option" where
  "match_number s =
     (let (neg, body) = (case s of c # cs \<Rightarrow> if c = CHR ''-'' then (True, cs) else (False, s) | [] \<Rightarrow> (False, s))
      in case match_integer body of
           None \<Rightarrow> None
         | Some (ds, rest) \<Rightarrow>
             if match_frac rest \<or> match_exp rest then Some (Inl (Not_modelled ''float''))
             else Some (Inr (PInt (if neg then - int (nat_of_digits ds) else int (nat_of_digits ds)), rest)))"

text \<open>The branches of \<open>_scan_once\<close> that do not recurse: the three literals, a number,
  and the names of the floating point specials.\<close>

definition scan_literal :: "string \<Rightarrow> py_error + pyval \<times> string" where
  "scan_literal s =
     (if take 4 s = ''null'' then Inr (PNone, drop 4 s)
      else if take 4 s = ''true'' then Inr (PBool True, drop 4 s)
      else if take 5 s = ''false'' then Inr (PBool False, drop 5 s)
      else
        (case match_number s of
           Some r \<Rightarrow> r
         | None \<Rightarrow>
             if take 3 s = ''NaN'' \<or> take 8 s = ''Infinity'' \<or> take 9 s = ''-Infinity''
             then Inl (Not_modelled ''float'')
             else Inl (JSONDecodeError Expecting_value)))"

fun scan_once :: "nat \<Rightarrow> string \<Rightarrow> py_error + pyval \<times> string"
  and JSONArray :: "nat \<Rightarrow> pyval list \<Rightarrow> string \<Rightarrow> py_error + pyval \<times> string"
  and JSONObject :: "nat \<Rightarrow> (string \<times> pyval) list \<Rightarrow> string \<Rightarrow> py_error + pyval \<times> string" where
  "scan_once 0 s = Inl (Not_modelled ''fuel'')"
| "scan_once (Suc n) [] = Inl (JSONDecodeError Expecting_value)"
| "scan_once (Suc n) (c # cs) =
     (if c = DQUOTE then
        (case scanstring cs of Inl e \<Rightarrow> Inl e | Inr (str, rest) \<Rightarrow> Inr (PStr str, rest))
      else if c = CHR ''{'' then
        (case skip_ws cs of
           [] \<Rightarrow> Inl (JSONDecodeError Expecting_property_name)
         | d # ds \<Rightarrow> if d = CHR ''}'' then Inr (PDict [], ds) else JSONObject n [] (d # ds))
      else if c = CHR ''['' then
        (case skip_ws cs of
           [] \<Rightarrow> Inl (JSONDecodeError Expecting_value)
         | d # ds \<Rightarrow> if d = CHR '']'' then Inr (PList [], ds) else JSONArray n [] (d # ds))
      else scan_literal (c # cs))"
| "JSONArray 0 acc s = Inl (Not_modelled ''fuel'')"
| "JSONArray (Suc n) acc s =
     (case scan_once n s of
        Inl e \<Rightarrow> Inl e
      | Inr (v, rest) \<Rightarrow>
          (case skip_ws rest of
             [] \<Rightarrow> Inl (JSONDecodeError Expecting_comma)
           | d # ds \<Rightarrow>
               if d = CHR '']'' then Inr (PList (acc @ [v]), ds)
               else if d = CHR '','' then JSONArray n (acc @ [v]) (skip_ws ds)
               else Inl (JSONDecodeError Expecting_comma)))"
| "JSONObject 0 acc s = Inl (Not_modelled ''fuel'')"
| "JSONObject (Suc n) acc [] = Inl (JSONDecodeError Expecting_property_name)"
| "JSONObject (Suc n) acc (q # s) =
     (if q \<noteq> DQUOTE then Inl (JSONDecodeError Expecting_property_name)
      else case scanstring s of
        Inl e \<Rightarrow> Inl e
      | Inr (key, rest) \<Rightarrow>
          (case skip_ws rest of
             [] \<Rightarrow> Inl (JSONDecodeError Expecting_colon)
           | c # cs \<Rightarrow>
               if c \<noteq> CHR '':'' then Inl (JSONDecodeError Expecting_colon)
               else case scan_once n (skip_ws cs) of
                 Inl e \<Rightarrow> Inl e
               | Inr (v, rest') \<Rightarrow>
                   (case skip_ws rest' of
                      [] \<Rightarrow> Inl (JSONDecodeError Expecting_comma)
                    | d # ds \<Rightarrow>
                        if d = CHR ''}'' then Inr (PDict (AList.update key v acc), ds)
                        else if d = CHR '','' then JSONObject n (AList.update key v acc) (skip_ws ds)
                        else Inl (JSONDecodeError Expecting_comma))))"

definition json_loads :: "string \<Rightarrow> py_error + pyval" where
  "json_loads s =
     (case scan_once (2 * length s + 1) (skip_ws s) of
        Inl e \<Rightarrow> Inl e
      | Inr (obj, rest) \<Rightarrow>
          if skip_ws rest = [] then Inr obj else Inl (JSONDecodeError Extra_data))"

section \<open>Persistence\<close>

text \<open>
  The state of the program: the global \<open>Yggdrasil\<close> and the files, a map from file
  names to their text. \<open>os.path.exists(filename)\<close> is \<open>files s filename \<noteq> None\<close>.
  Failures of the file system itself (permissions, a full disk) are not modelled.
\<close>

record state =
  Yggdrasil :: pyval
  files :: "string \<Rightarrow> string option"

text \<open>\<open>open(filename, "w")\<close> creates the file or truncates it to length zero.\<close>

definition open_w :: "string \<Rightarrow> state \<Rightarrow> state" where
  "open_w filename s = s\<lparr>files := (files s)(filename \<mapsto> [])\<rparr>"

text \<open>\<open>f.write(text)\<close> on the file opened for writing appends to what was written so far.\<close>

definition fp_write :: "string \<Rightarrow> string \<Rightarrow> state \<Rightarrow> state" where
  "fp_write filename text s =
     s\<lparr>files := (files s)(filename \<mapsto> (case files s filename of None \<Rightarrow> text | Some old \<Rightarrow> old @ text))\<rparr>"

text \<open>
  \<open>save_yggdrasil(filename)\<close>, lines 129-133: the destination itself is opened for
  writing, then \<open>json.dump\<close> writes the document into it.
\<close>

definition save_yggdrasil :: "string \<Rightarrow> state \<Rightarrow> state" where
  "save_yggdrasil filename s = fp_write filename (json_dumps (Yggdrasil s)) (open_w filename s)"

text \<open>
  \<open>json.dump\<close> writes the document piece by piece. \<open>save_interrupted k\<close> is the state a
  call of \<open>save_yggdrasil\<close> leaves when the process stops after the first \<open>k\<close> characters
  of the document have reached the file.
\<close>

definition save_interrupted :: "nat \<Rightarrow> string \<Rightarrow> state \<Rightarrow> state" where
  "save_interrupted k filename s =
     fp_write filename (take k (json_dumps (Yggdrasil s))) (open_w filename s)"

text \<open>
  \<open>load_yggdrasil(filename)\<close>, lines 136-145. The global is assigned only when
  \<open>json.load\<close> has returned; an exception of the decoder leaves it as it was. (Where
  the decoder of the model answers \<open>Not_modelled\<close>, the model says nothing about the
  program: no theorem below rests on that answer.)
\<close>

definition load_yggdrasil :: "string \<Rightarrow> state \<Rightarrow> py_error option \<times> state" where
  "load_yggdrasil filename s =
     (case files s filename of
        Some text \<Rightarrow>
          (case json_loads text of
             Inl e \<Rightarrow> (Some e, s)
           | Inr obj \<Rightarrow> (None, s\<lparr>Yggdrasil := obj\<rparr>))
      | None \<Rightarrow> (None, s\<lparr>Yggdrasil := PDict []\<rparr>))"


section \<open>Auxiliary definitions of the proofs\<close>

text \<open>
  None of these is part of the program. \<open>put path r node\<close> is the node with \<open>r\<close> at
  \<open>path\<close>, the dictionaries missing on the way created: on a catalog, \<open>add_song\<close> is
  shown to compute it (\<open>add_song_put\<close>). \<open>cost\<close> bounds the fuel the decoder uses on
  the encoding of a value; \<open>delim\<close> and \<open>starts_value\<close> describe what follows and
  what begins an encoded value.
\<close>

fun put :: "string list \<Rightarrow> pyval \<Rightarrow> pyval \<Rightarrow> pyval" where
  "put [] r n = r"
| "put (k # ks) r (PDict kvs) =
     PDict (AList.update k (put ks r (case map_of kvs k of Some c \<Rightarrow> c | None \<Rightarrow> PDict [])) kvs)"
| "put (k # ks) r n = n"

fun cost :: "pyval \<Rightarrow> nat"
  and cost_list :: "pyval list \<Rightarrow> nat"
  and cost_dict :: "(string \<times> pyval) list \<Rightarrow> nat" where
  "cost (PList xs) = Suc (cost_list xs)"
| "cost (PDict kvs) = Suc (cost_dict kvs)"
| "cost PNone = 1"
| "cost (PBool b) = 1"
| "cost (PInt i) = 1"
| "cost (PStr s) = 1"
| "cost_list [] = 0"
| "cost_list (x # xs) = Suc (cost x + cost_list xs)"
| "cost_dict [] = 0"
| "cost_dict ((k, v) # kvs) = Suc (cost v + cost_dict kvs)"

definition delim :: "string \<Rightarrow> bool" where
  "delim rest = (case rest of [] \<Rightarrow> True | c # _ \<Rightarrow> c = CHR '','' \<or> c = NEWLINE)"

definition starts_value :: "string \<Rightarrow> bool" where
  "starts_value s = (case s of [] \<Rightarrow> False | c # _ \<Rightarrow> \<not> is_ws c \<and> c \<noteq> CHR '']'' \<and> c \<noteq> CHR ''}'')"

section \<open>Example data\<close>

text \<open>The record and the tree of the specification's scenario.\<close>

definition bohemian_record :: pyval where
  "bohemian_record = PDict [(''duration_ms'', PInt 354000)]"

definition queen_tree :: pyval where
  "queen_tree =
     PDict [(''Rock'', PDict [(''Queen'', PDict [(''A Night at the Opera'',
       PDict [(''Bohemian Rhapsody'', bohemian_record)])])])]"

text \<open>States of the program with a file to load.\<close>

definition saved_empty :: state where
  "saved_empty = \<lparr>Yggdrasil = queen_tree, files = Map.empty(''yggdrasil.json'' \<mapsto> json_dumps (PDict []))\<rparr>"




section \<open>Properties of the catalog\<close>

lemma py_bind_simps [simp]:
  "py_bind (Inl e) f = Inl e"
  "py_bind (Inr x) f = f x"
  by (simp_all add: py_bind_def)

lemma is_node_child: "list_all (is_node n) (map snd kvs) \<Longrightarrow> map_of kvs k = Some c \<Longrightarrow> is_node n c"
  by (auto simp: list_all_iff dest!: map_of_SomeD)


lemma store_put:
  "is_node (length path + Suc n) Y \<Longrightarrow> subscript Y path = Inr node \<Longrightarrow>
   store Y path k v = Inr (put (path @ [k]) v Y)"
proof (induction path arbitrary: Y)
  case Nil
  then show ?case by (cases Y) auto
next
  case (Cons p ps)
  from Cons.prems(1) obtain kvs where Y: "Y = PDict kvs" and ch: "list_all (is_node (length ps + Suc n)) (map snd kvs)"
    by (cases Y) auto
  from Cons.prems(2) Y obtain c where c: "map_of kvs p = Some c" "subscript c ps = Inr node"
    by (auto split: option.splits)
  have "is_node (length ps + Suc n) c" using ch c(1) by (rule is_node_child)
  from Cons.IH[OF this c(2)] show ?case using Y c by simp
qed

lemma is_node_empty [simp]: "is_node n (PDict [])"
  by (cases n) auto

lemma subscript_is_node:
  "is_node (length path + m) Y \<Longrightarrow> subscript Y path = Inr node \<Longrightarrow> is_node m node"
proof (induction path arbitrary: Y)
  case Nil
  then show ?case by simp
next
  case (Cons p ps)
  from Cons.prems(1) obtain kvs where Y: "Y = PDict kvs"
    and ch: "list_all (is_node (length ps + m)) (map snd kvs)"
    by (cases Y) auto
  from Cons.prems(2) Y obtain c where c: "map_of kvs p = Some c" "subscript c ps = Inr node"
    by (auto split: option.splits)
  have "is_node (length ps + m) c" using ch c(1) by (rule is_node_child)
  then show ?case using c(2) by (rule Cons.IH)
qed

lemma is_node_update:
  "distinct (map fst kvs) \<Longrightarrow> list_all (is_node n) (map snd kvs) \<Longrightarrow> is_node n c \<Longrightarrow>
   is_node (Suc n) (PDict (AList.update k c kvs))"
  by (induction kvs) (auto simp: distinct_update dom_update)

lemma put_is_node:
  "is_node (length p + n) Y \<Longrightarrow> is_node n r \<Longrightarrow> is_node (length p + n) (put p r Y)"
proof (induction p arbitrary: Y)
  case Nil
  then show ?case by simp
next
  case (Cons k ks)
  from Cons.prems(1) obtain kvs where Y: "Y = PDict kvs" and d: "distinct (map fst kvs)"
    and ch: "list_all (is_node (length ks + n)) (map snd kvs)"
    by (cases Y) auto
  let ?c = "case map_of kvs k of Some c \<Rightarrow> c | None \<Rightarrow> PDict []"
  have "is_node (length ks + n) ?c"
    using ch by (auto split: option.splits intro: is_node_child)
  then have "is_node (length ks + n) (put ks r ?c)" using Cons.prems(2) by (rule Cons.IH)
  with d ch have "is_node (Suc (length ks + n)) (PDict (AList.update k (put ks r ?c) kvs))"
    by (rule is_node_update)
  then show ?case unfolding Y by simp
qed

lemma put_absorb:
  "subscript Y path = Inr (PDict kvs) \<Longrightarrow> map_of kvs k = None \<Longrightarrow>
   put (path @ k # rest) r (put (path @ [k]) (PDict []) Y) = put (path @ k # rest) r Y"
proof (induction path arbitrary: Y)
  case Nil
  then show ?case by (simp add: update_conv')
next
  case (Cons p ps)
  from Cons.prems(1) obtain ys c where Y: "Y = PDict ys" and c: "map_of ys p = Some c"
    "subscript c ps = Inr (PDict kvs)"
    by (cases Y) (auto split: option.splits)
  from Cons.IH[OF c(2) Cons.prems(2)] show ?case using Y c(1) by (simp add: update_conv')
qed

lemma subscript_snoc:
  "subscript Y (path @ [k]) = py_bind (subscript Y path) (\<lambda>n. getitem n k)"
  by (induction path arbitrary: Y) (auto simp: py_bind_def split: sum.splits)

lemma subscript_put_self:
  "is_node (length p + n) Y \<Longrightarrow> subscript (put p r Y) p = Inr r"
proof (induction p arbitrary: Y)
  case Nil
  then show ?case by simp
next
  case (Cons k ks)
  from Cons.prems(1) obtain kvs where Y: "Y = PDict kvs"
    and ch: "list_all (is_node (length ks + n)) (map snd kvs)"
    by (cases Y) auto
  let ?c = "case map_of kvs k of Some c \<Rightarrow> c | None \<Rightarrow> PDict []"
  have "is_node (length ks + n) ?c"
    using ch by (auto split: option.splits intro: is_node_child)
  then have "subscript (put ks r ?c) ks = Inr r" by (rule Cons.IH)
  then show ?case unfolding Y by (simp add: update_conv')
qed

lemma if_absent_put:
  assumes Y: "is_node (length path + Suc n) Y" and sub: "subscript Y path = Inr node"
  shows "\<exists>Y'. if_absent path k Y = Inr Y' \<and> is_node (length path + Suc n) Y' \<and>
           (\<exists>c. subscript Y' (path @ [k]) = Inr c) \<and>
           (\<forall>rest r. put (path @ k # rest) r Y' = put (path @ k # rest) r Y)"
proof -
  from subscript_is_node[OF Y sub] obtain kvs where node: "node = PDict kvs"
    by (cases node) auto
  show ?thesis
  proof (cases "map_of kvs k")
    case None
    then have "k \<notin> set (map fst kvs)" by (simp add: map_of_eq_None_iff)
    then have abs: "if_absent path k Y = Inr (put (path @ [k]) (PDict []) Y)"
      using sub node store_put[OF Y sub] by (simp add: if_absent_def)
    have Y': "is_node (length (path @ [k]) + n) Y" using Y by simp
    have 1: "is_node (length path + Suc n) (put (path @ [k]) (PDict []) Y)"
      using put_is_node[OF Y', of "PDict []"] by simp
    have 2: "subscript (put (path @ [k]) (PDict []) Y) (path @ [k]) = Inr (PDict [])"
      using Y' by (rule subscript_put_self)
    have 3: "\<forall>rest r. put (path @ k # rest) r (put (path @ [k]) (PDict []) Y) = put (path @ k # rest) r Y"
      using put_absorb[OF sub[unfolded node] None] by blast
    from abs 1 2 3 show ?thesis by simp
  next
    case (Some c)
    then have "k \<in> set (map fst kvs)" by (metis map_of_eq_None_iff option.distinct(1) set_map)
    then have "if_absent path k Y = Inr Y" using sub node by (simp add: if_absent_def)
    moreover have "subscript Y (path @ [k]) = Inr c" using sub node Some by (simp add: subscript_snoc)
    ultimately show ?thesis using Y by simp
  qed
qed

lemma add_song_put:
  assumes Y: "is_node 4 Y"
  shows "add_song g a al s md Y = (None, put [g, a, al, s] (if truthy md then md else PDict []) Y)"
proof -
  let ?r = "if truthy md then md else PDict []"
  have Y0: "is_node (length ([]::string list) + Suc 3) Y" using Y by (simp add: eval_nat_numeral)
  from if_absent_put[OF Y0, of Y g] obtain Y1 where
    s1: "if_absent [] g Y = Inr Y1" and n1: "is_node 4 Y1" and
    c1: "\<exists>c. subscript Y1 [g] = Inr c" and p1: "\<And>rest r. put (g # rest) r Y1 = put (g # rest) r Y"
    by (auto simp: eval_nat_numeral)
  from c1 obtain c1' where c1': "subscript Y1 [g] = Inr c1'" by blast
  have Y1': "is_node (length [g] + Suc 2) Y1" using n1 by (simp add: eval_nat_numeral)
  from if_absent_put[OF Y1' c1', of a] obtain Y2 where
    s2: "if_absent [g] a Y1 = Inr Y2" and n2: "is_node 4 Y2" and
    c2: "\<exists>c. subscript Y2 [g, a] = Inr c" and p2: "\<And>rest r. put (g # a # rest) r Y2 = put (g # a # rest) r Y1"
    by (auto simp: eval_nat_numeral)
  from c2 obtain c2' where c2': "subscript Y2 [g, a] = Inr c2'" by blast
  have Y2': "is_node (length [g, a] + Suc 1) Y2" using n2 by (simp add: eval_nat_numeral)
  from if_absent_put[OF Y2' c2', of al] obtain Y3 where
    s3: "if_absent [g, a] al Y2 = Inr Y3" and n3: "is_node 4 Y3" and
    c3: "\<exists>c. subscript Y3 [g, a, al] = Inr c" and p3: "\<And>rest r. put (g # a # al # rest) r Y3 = put (g # a # al # rest) r Y2"
    by (auto simp: eval_nat_numeral)
  from c3 obtain c3' where c3': "subscript Y3 [g, a, al] = Inr c3'" by blast
  have Y3': "is_node (length [g, a, al] + Suc 0) Y3" using n3 by (simp add: eval_nat_numeral)
  have s4: "store Y3 [g, a, al] s ?r = Inr (put [g, a, al, s] ?r Y3)"
    using store_put[OF Y3' c3', of s ?r] by simp
  have "put [g, a, al, s] ?r Y3 = put [g, a, al, s] ?r Y" by (simp only: p3 p2 p1)
  with s1 s2 s3 s4 show ?thesis by (simp add: add_song_def)
qed

lemma put_frame:
  "is_node (length p + n) Y \<Longrightarrow> length q = length p \<Longrightarrow> q \<noteq> p \<Longrightarrow>
   subscript Y q = Inr x \<Longrightarrow> subscript (put p r Y) q = Inr x"
proof (induction p arbitrary: Y q)
  case Nil
  then show ?case by simp
next
  case (Cons k ks)
  from Cons.prems(2) obtain k' qs where q: "q = k' # qs" and len: "length qs = length ks"
    by (cases q) auto
  from Cons.prems(1) obtain kvs where Y: "Y = PDict kvs"
    and ch: "list_all (is_node (length ks + n)) (map snd kvs)"
    by (cases Y) auto
  from Cons.prems(4) Y q obtain c' where c': "map_of kvs k' = Some c'" "subscript c' qs = Inr x"
    by (auto split: option.splits)
  show ?case
  proof (cases "k' = k")
    case True
    with Cons.prems(3) q have ne: "qs \<noteq> ks" by simp
    have "is_node (length ks + n) c'" using ch c'(1) by (rule is_node_child)
    from Cons.IH[OF this len ne c'(2)] show ?thesis
      using True c'(1) unfolding Y q by (simp add: update_conv')
  next
    case False
    then show ?thesis using c' unfolding Y q by (simp add: update_conv')
  qed
qed

lemma put_keys_mono:
  "is_node (length p + n) Y \<Longrightarrow> length q < length p \<Longrightarrow> subscript Y q = Inr (PDict kvs) \<Longrightarrow>
   \<exists>kvs'. subscript (put p r Y) q = Inr (PDict kvs') \<and> set (map fst kvs) \<subseteq> set (map fst kvs')"
proof (induction p arbitrary: Y q)
  case Nil
  then show ?case by simp
next
  case (Cons k ks)
  from Cons.prems(1) obtain ys where Y: "Y = PDict ys"
    and ch: "list_all (is_node (length ks + n)) (map snd ys)"
    by (cases Y) auto
  show ?case
  proof (cases q)
    case Nil
    with Cons.prems(3) Y have "kvs = ys" by simp
    then show ?thesis unfolding Y Nil by (auto simp: dom_update)
  next
    case (Cons k' qs)
    from Cons.prems(3) Y Cons obtain c' where c': "map_of ys k' = Some c'"
      "subscript c' qs = Inr (PDict kvs)"
      by (auto split: option.splits)
    show ?thesis
    proof (cases "k' = k")
      case True
      have n: "is_node (length ks + n) c'" using ch c'(1) by (rule is_node_child)
      have l: "length qs < length ks" using Cons.prems(2) Cons by simp
      from Cons.IH[OF n l c'(2)] show ?thesis
        using True c'(1) unfolding Y Cons by (simp add: update_conv')
    next
      case False
      then show ?thesis using c' unfolding Y Cons by (simp add: update_conv')
    qed
  qed
qed

lemma put_new_key:
  "is_node (length (pre @ k # post) + n) Y \<Longrightarrow>
   \<exists>kvs. subscript (put (pre @ k # post) r Y) pre = Inr (PDict kvs) \<and> k \<in> set (map fst kvs)"
proof (induction pre arbitrary: Y)
  case Nil
  then obtain ys where "Y = PDict ys" by (cases Y) auto
  then show ?case by (auto simp: dom_update)
next
  case (Cons p ps)
  from Cons.prems obtain ys where Y: "Y = PDict ys"
    and ch: "list_all (is_node (length (ps @ k # post) + n)) (map snd ys)"
    by (cases Y) auto
  let ?c = "case map_of ys p of Some c \<Rightarrow> c | None \<Rightarrow> PDict []"
  have "is_node (length (ps @ k # post) + n) ?c"
    using ch by (auto split: option.splits intro: is_node_child)
  from Cons.IH[OF this] show ?case unfolding Y by (simp add: update_conv')
qed

lemma put_new_key_enum:
  assumes "is_node (length (pre @ k # post) + n) Y"
  shows "\<exists>ks. enumerate_keys (put (pre @ k # post) r Y) pre = Inr ks \<and> k \<in> set ks"
proof -
  from put_new_key[OF assms, of r] obtain kvs where
    "subscript (put (pre @ k # post) r Y) pre = Inr (PDict kvs)" "k \<in> set (map fst kvs)"
    by blast
  then show ?thesis by (simp add: enumerate_keys_def)
qed

lemma update_keys_present:
  "map_of al k = Some c \<Longrightarrow> map fst (AList.update k v al) = map fst al"
  by (induction al) auto

lemma put_existing_keys:
  "is_node (length p + n) Y \<Longrightarrow> subscript Y p = Inr x \<Longrightarrow> length q < length p \<Longrightarrow>
   enumerate_keys (put p r Y) q = enumerate_keys Y q"
proof (induction p arbitrary: Y q)
  case Nil
  then show ?case by simp
next
  case (Cons k ks)
  from Cons.prems(1) obtain ys where Y: "Y = PDict ys"
    and ch: "list_all (is_node (length ks + n)) (map snd ys)"
    by (cases Y) auto
  from Cons.prems(2) Y obtain c where c: "map_of ys k = Some c" "subscript c ks = Inr x"
    by (auto split: option.splits)
  have n: "is_node (length ks + n) c" using ch c(1) by (rule is_node_child)
  show ?case
  proof (cases q)
    case Nil
    then show ?thesis unfolding Y using c(1) by (simp add: enumerate_keys_def update_keys_present)
  next
    case (Cons k' qs)
    show ?thesis
    proof (cases "k' = k")
      case True
      have l: "length qs < length ks" using Cons.prems(3) Cons by simp
      from Cons.IH[OF n c(2) l] show ?thesis
        using True c(1) unfolding Y Cons by (simp add: update_conv' enumerate_keys_def)
    next
      case False
      then show ?thesis unfolding Y Cons by (simp add: update_conv' enumerate_keys_def)
    qed
  qed
qed

lemma put_put:
  "is_node (length p + n) Y \<Longrightarrow> put p r2 (put p r1 Y) = put p r2 Y"
proof (induction p arbitrary: Y)
  case Nil
  then show ?case by simp
next
  case (Cons k ks)
  from Cons.prems(1) obtain ys where Y: "Y = PDict ys"
    and ch: "list_all (is_node (length ks + n)) (map snd ys)"
    by (cases Y) auto
  let ?c = "case map_of ys k of Some c \<Rightarrow> c | None \<Rightarrow> PDict []"
  have "is_node (length ks + n) ?c"
    using ch by (auto split: option.splits intro: is_node_child)
  from Cons.IH[OF this] show ?case unfolding Y by (simp add: update_conv')
qed

lemma subscript_missing:
  "subscript Y pre = Inr (PDict kvs) \<Longrightarrow> k \<notin> set (map fst kvs) \<Longrightarrow>
   subscript Y (pre @ k # post) = Inl (KeyError k)"
proof (induction pre arbitrary: Y)
  case Nil
  then show ?case by (simp add: map_of_eq_None_iff[THEN iffD2])
next
  case (Cons p ps)
  then show ?case by (cases "getitem Y p") auto
qed

lemma put_created:
  "is_node (length (pre @ [k]) + n) Y \<Longrightarrow> \<exists>e. subscript Y (pre @ [k]) = Inl e \<Longrightarrow>
   subscript (put (pre @ k # post) r Y) (pre @ [k]) = Inr (put post r (PDict []))"
proof (induction pre arbitrary: Y)
  case Nil
  then obtain ys where Y: "Y = PDict ys" by (cases Y) auto
  with Nil.prems(2) have "map_of ys k = None" by (auto split: option.splits)
  then show ?case unfolding Y by (simp add: update_conv')
next
  case (Cons p ps)
  from Cons.prems(1) obtain ys where Y: "Y = PDict ys"
    and ch: "list_all (is_node (length (ps @ [k]) + n)) (map snd ys)"
    by (cases Y) auto
  let ?c = "case map_of ys p of Some c \<Rightarrow> c | None \<Rightarrow> PDict []"
  have n: "is_node (length (ps @ [k]) + n) ?c"
    using ch by (auto split: option.splits intro: is_node_child)
  have "\<exists>e. subscript ?c (ps @ [k]) = Inl e"
  proof (cases "map_of ys p")
    case None
    then show ?thesis by (cases ps) auto
  next
    case (Some c)
    then show ?thesis using Cons.prems(2) unfolding Y by simp
  qed
  from Cons.IH[OF n this] show ?case unfolding Y by (simp add: update_conv')
qed

lemma stored_record:
  "is_record md \<or> md = PNone \<Longrightarrow>
   (if truthy md then md else PDict []) = (if md = PNone then PDict [] else md)"
  by (cases md) auto

lemma stored_is_record:
  "is_record md \<or> md = PNone \<Longrightarrow> is_node 0 (if truthy md then md else PDict [])"
  by (cases md) auto

lemma queen_tree_catalog: "is_catalog queen_tree"
  by (simp add: is_catalog_def queen_tree_def bohemian_record_def eval_nat_numeral)

lemma add_song_keeps_keys:
  assumes cat: "is_catalog Y" and len: "length q < 4"
    and ks: "enumerate_keys Y q = Inr ks"
  shows "\<exists>ks'. enumerate_keys (snd (add_song genre artist album song_name metadata Y)) q = Inr ks'
           \<and> set ks \<subseteq> set ks'"
proof -
  let ?p = "[genre, artist, album, song_name]"
  let ?s = "if truthy metadata then metadata else PDict []"
  have c4: "is_node 4 Y" using cat by (simp add: is_catalog_def)
  then have np: "is_node (length ?p + 0) Y" by (simp add: eval_nat_numeral)
  from ks obtain node where node: "subscript Y q = Inr node" "keys node = Inr ks"
    by (cases "subscript Y q") (auto simp: enumerate_keys_def)
  then obtain kvs where kvs: "node = PDict kvs" "ks = map fst kvs"
    by (cases node) auto
  have l: "length q < length ?p" using len by simp
  from put_keys_mono[OF np l node(1)[unfolded kvs], of ?s] show ?thesis
    using add_song_put[OF c4] kvs by (auto simp: enumerate_keys_def)
qed

lemma enumerate_keys_dict:
  "is_node (length q + Suc n) Y \<Longrightarrow> subscript Y q = Inr node \<Longrightarrow>
   \<exists>kvs. node = PDict kvs \<and> enumerate_keys Y q = Inr (map fst kvs)"
  by (drule (1) subscript_is_node, cases node) (auto simp: enumerate_keys_def)

lemma getitem_present:
  "k \<in> set (map fst kvs) \<Longrightarrow> \<exists>c. getitem (PDict kvs) k = Inr c"
  by (cases "map_of kvs k") (auto simp: map_of_eq_None_iff)

lemma subscript_step:
  assumes n: "is_node (length q + Suc n) Y" and sub: "subscript Y q = Inr node"
  shows "\<exists>ks. enumerate_keys Y q = Inr ks \<and>
           (k \<notin> set ks \<longrightarrow> (\<forall>post. subscript Y (q @ k # post) = Inl (KeyError k))) \<and>
           (k \<in> set ks \<longrightarrow> (\<exists>c. subscript Y (q @ [k]) = Inr c))"
proof -
  from enumerate_keys_dict[OF n sub] obtain kvs where
    kvs: "node = PDict kvs" "enumerate_keys Y q = Inr (map fst kvs)" by blast
  have a: "k \<notin> set (map fst kvs) \<longrightarrow> (\<forall>post. subscript Y (q @ k # post) = Inl (KeyError k))"
    using subscript_missing[OF sub[unfolded kvs(1)]] by blast
  have b: "k \<in> set (map fst kvs) \<longrightarrow> (\<exists>c. subscript Y (q @ [k]) = Inr c)"
    using getitem_present[of k kvs] sub kvs(1) by (auto simp: subscript_snoc)
  from kvs(2) a b show ?thesis by blast
qed

lemma subscript_append:
  "subscript Y (q @ r) = py_bind (subscript Y q) (\<lambda>n. subscript n r)"
  by (induction q arbitrary: Y) (auto simp: py_bind_def split: sum.splits)

lemma prompt_then:
  assumes "is_node (length q + Suc n) Y"
  shows "py_bind (enumerate_keys Y q) (\<lambda>_. py_bind (subscript Y (q @ r)) f) =
         py_bind (subscript Y (q @ r)) f"
proof (cases "subscript Y q")
  case (Inl e)
  then show ?thesis by (simp add: enumerate_keys_def subscript_append)
next
  case (Inr node)
  from enumerate_keys_dict[OF assms Inr] show ?thesis by auto
qed

lemma manual_navigation_lookup:
  assumes "is_catalog Y"
  shows "manual_navigation Y genre artist album song =
           (if truthy Y
            then py_bind (lookup Y genre artist album song) (\<lambda>metadata. Inr (Some metadata))
            else Inr None)"
proof -
  have n4: "is_node (Suc (Suc (Suc (Suc 0)))) Y"
    using assms by (simp add: is_catalog_def eval_nat_numeral)
  have n0: "is_node (length ([]::string list) + Suc (Suc (Suc (Suc 0)))) Y" using n4 by simp
  have n1: "is_node (length [genre] + Suc (Suc (Suc 0))) Y" using n4 by simp
  have n2: "is_node (length [genre, artist] + Suc (Suc 0)) Y" using n4 by simp
  have n3: "is_node (length [genre, artist, album] + Suc 0) Y" using n4 by simp
  let ?f = "\<lambda>metadata. Inr (Some metadata) :: py_error + pyval option"
  let ?l = "py_bind (subscript Y [genre, artist, album, song]) ?f"
  have a3: "py_bind (enumerate_keys Y [genre, artist, album]) (\<lambda>_. ?l) = ?l"
    using prompt_then[OF n3, of "[song]" ?f] by (simp only: append.simps)
  have a2: "py_bind (enumerate_keys Y [genre, artist]) (\<lambda>_. ?l) = ?l"
    using prompt_then[OF n2, of "[album, song]" ?f] by (simp only: append.simps)
  have a1: "py_bind (enumerate_keys Y [genre]) (\<lambda>_. ?l) = ?l"
    using prompt_then[OF n1, of "[artist, album, song]" ?f] by (simp only: append.simps)
  have a0: "py_bind (enumerate_keys Y []) (\<lambda>_. ?l) = ?l"
    using prompt_then[OF n0, of "[genre, artist, album, song]" ?f] by (simp only: append.simps)
  show ?thesis
  proof (cases "truthy Y")
    case True
    then show ?thesis
      unfolding manual_navigation_def lookup_def by (simp only: a3 a2 a1 a0 not_True_eq_False if_False if_True not_not)
  next
    case False
    then show ?thesis unfolding manual_navigation_def by simp
  qed
qed

lemma is_node_children:
  assumes "is_node (Suc n) v"
  shows "\<exists>kvs. v = PDict kvs \<and> enumerate_keys v [] = Inr (map fst kvs) \<and>
           (\<forall>k c. map_of kvs k = Some c \<longrightarrow> is_node n c)"
proof -
  from assms obtain kvs where v: "v = PDict kvs" and ch: "list_all (is_node n) (map snd kvs)"
    by (cases v) auto
  have "\<forall>k c. map_of kvs k = Some c \<longrightarrow> is_node n c" using ch by (blast intro: is_node_child)
  with v show ?thesis by (simp add: enumerate_keys_def)
qed

lemma choice_of_keys:
  "choice_of (Inr ks) g =
     (if ks = [] then (Inl IndexError, g) else (Inr (ks ! (shd g mod length ks)), stl g))"
  by (simp add: choice_of_def choice_def)

lemma choice_valid:
  "(ks \<noteq> [] \<longrightarrow> (\<exists>k. choice_of (Inr ks) g = (Inr k, stl g) \<and> k \<in> set ks)) \<and>
   (ks = [] \<longrightarrow> choice_of (Inr ks) g = (Inl IndexError, g))"
  by (simp add: choice_of_keys)

lemma random_enumerate:
  "random_genre Y = choice_of (enumerate_keys Y [])"
  "random_artist Y genre = choice_of (enumerate_keys Y [genre])"
  "random_album Y genre artist = choice_of (enumerate_keys Y [genre, artist])"
  "random_song Y genre artist album = choice_of (enumerate_keys Y [genre, artist, album])"
  by (simp_all add: random_genre_def random_artist_def random_album_def random_song_def
      enumerate_keys_def py_bind_def split: sum.splits)

section \<open>The decoder reads back what the encoder writes\<close>

lemma hex_val_hex_digit: "m < 16 \<Longrightarrow> hex_val (hex_digit m) = Some m"
  by (simp add: hex_digit_def hex_val_def)

lemma decode_escape:
  "n < 256 \<Longrightarrow> decode_uXXXX (CHR ''0'') (CHR ''0'') (hex_digit (n div 16)) (hex_digit (n mod 16)) = Some n"
  by (simp add: decode_uXXXX_def hex_val_hex_digit less_mult_imp_div_less) (simp add: hex_val_def)

lemma scanstring_escape_char:
  "scanstring (escape_char c @ t) = cons_char c (scanstring t)"
proof -
  have n: "(of_char c :: nat) < 256" by simp
  show ?thesis
    using decode_escape[OF n]
    by (auto simp: escape_char_def unescape_def)
qed

lemma scanstring_escaped:
  "scanstring (concat (map escape_char s) @ DQUOTE # rest) = Inr (s, rest)"
  by (induction s) (simp_all add: scanstring_escape_char cons_char_def)

lemma scan_string:
  "scan_once (Suc n) (encode_basestring_ascii s @ rest) = Inr (PStr s, rest)"
  using scanstring_escaped[of s rest] by (simp add: encode_basestring_ascii_def del: scanstring.simps)

declare show_nat.simps [simp del]

lemma is_digit_char_of: "(d::nat) < 10 \<Longrightarrow> is_digit (char_of (48 + d))"
  by (simp add: is_digit_def)

lemma digit_val_char_of: "(d::nat) < 10 \<Longrightarrow> digit_val (char_of (48 + d)) = d"
  by (simp add: digit_val_def)

lemma show_nat_digits: "list_all is_digit (show_nat n)"
  by (induction n rule: show_nat.induct) (subst show_nat.simps, simp add: is_digit_char_of)

lemma show_nat_nonempty: "show_nat n \<noteq> []"
  by (subst show_nat.simps) simp

lemma nat_of_digits_snoc: "nat_of_digits (ds @ [c]) = 10 * nat_of_digits ds + digit_val c"
  by (simp add: nat_of_digits_def)

lemma nat_of_digits_show_nat: "nat_of_digits (show_nat n) = n"
proof (induction n rule: show_nat.induct)
  case (1 n)
  show ?case
  proof (cases "n < 10")
    case True
    then show ?thesis
      by (subst show_nat.simps) (simp add: nat_of_digits_def digit_val_char_of)
  next
    case False
    with 1 show ?thesis
      by (subst show_nat.simps) (simp add: nat_of_digits_snoc digit_val_char_of)
  qed
qed

lemma show_nat_hd: "0 < n \<Longrightarrow> hd (show_nat n) \<noteq> CHR ''0''"
proof (induction n rule: show_nat.induct)
  case (1 n)
  show ?case
  proof (cases "n < 10")
    case True
    have "char_of (48 + n) \<noteq> CHR ''0''"
    proof
      assume "char_of (48 + n) = CHR ''0''"
      then have "of_char (char_of (48 + n)) = (of_char (CHR ''0'') :: nat)" by simp
      with True 1(2) show False by simp
    qed
    with True show ?thesis by (subst show_nat.simps) simp
  next
    case False
    then have "0 < n div 10" by simp
    with 1(1) False have "hd (show_nat (n div 10)) \<noteq> CHR ''0''" by simp
    with False show ?thesis
      by (subst show_nat.simps) (simp add: show_nat_nonempty)
  qed
qed

lemma char_of_48: "char_of (48::nat) = CHR ''0''"
proof -
  have "char_of (of_char (CHR ''0'') :: nat) = CHR ''0''" by (rule char_of_char)
  then show ?thesis by simp
qed

lemma show_nat_0: "show_nat 0 = ''0''"
  by (subst show_nat.simps) (simp add: char_of_48)

lemma delim_not_digit: "delim rest \<Longrightarrow> takeWhile is_digit rest = [] \<and> dropWhile is_digit rest = rest"
  by (cases rest) (auto simp: delim_def is_digit_def)

lemma match_integer_show_nat:
  assumes "delim rest"
  shows "match_integer (show_nat n @ rest) = Some (show_nat n, rest)"
proof (cases "n = 0")
  case True
  then show ?thesis by (simp add: show_nat_0 match_integer_def)
next
  case False
  obtain c cs where s: "show_nat n = c # cs" using show_nat_nonempty[of n] by (cases "show_nat n") auto
  have c0: "c \<noteq> CHR ''0''" using show_nat_hd[of n] False s by simp
  have dig: "list_all is_digit (c # cs)" using show_nat_digits[of n] s by simp
  then have "is_digit c" by simp
  moreover have "takeWhile is_digit ((c # cs) @ rest) = c # cs"
    using dig delim_not_digit[OF assms] by (simp add: takeWhile_append2 list_all_iff)
  moreover have "dropWhile is_digit ((c # cs) @ rest) = rest"
    using dig delim_not_digit[OF assms] by (simp add: dropWhile_append2 list_all_iff)
  ultimately show ?thesis using c0 unfolding s match_integer_def by simp
qed

lemma delim_not_float: "delim rest \<Longrightarrow> \<not> match_frac rest \<and> \<not> match_exp rest"
  by (cases rest) (auto simp: delim_def match_frac_def match_exp_def split: list.splits)

lemma show_nat_hd_digit: "\<exists>c cs. show_nat n = c # cs \<and> is_digit c"
  using show_nat_digits[of n] show_nat_nonempty[of n] by (cases "show_nat n") auto

lemma match_number_show_int:
  assumes "delim rest"
  shows "match_number (show_int i @ rest) = Some (Inr (PInt i, rest))"
proof (cases "i < 0")
  case True
  then show ?thesis
    using match_integer_show_nat[OF assms, of "nat (- i)"] delim_not_float[OF assms]
    by (simp add: match_number_def show_int_def nat_of_digits_show_nat)
next
  case False
  obtain c cs where s: "show_nat (nat i) = c # cs" "is_digit c"
    using show_nat_hd_digit by blast
  then have "c \<noteq> CHR ''-''" by (auto simp: is_digit_def)
  then show ?thesis
    using False match_integer_show_nat[OF assms, of "nat i"] delim_not_float[OF assms] s
      nat_of_digits_show_nat[of "nat i"]
    by (simp add: match_number_def show_int_def)
qed

lemma show_int_hd: "\<exists>c cs. show_int i = c # cs \<and> (c = CHR ''-'' \<or> is_digit c)"
  using show_nat_hd_digit[of "nat i"] by (auto simp: show_int_def)

lemma scan_number:
  assumes "delim rest"
  shows "scan_once (Suc n) (show_int i @ rest) = Inr (PInt i, rest)"
proof -
  obtain c cs where s: "show_int i = c # cs" "c = CHR ''-'' \<or> is_digit c"
    using show_int_hd by blast
  from s(2) have ne: "c \<noteq> DQUOTE" "c \<noteq> CHR ''{''" "c \<noteq> CHR ''[''" "c \<noteq> CHR ''n''"
    "c \<noteq> CHR ''t''" "c \<noteq> CHR ''f''"
    by (auto simp: is_digit_def)
  have "scan_once (Suc n) ((c # cs) @ rest) = Inr (PInt i, rest)"
    using ne s(2) match_number_show_int[OF assms, of i, unfolded s(1)]
    by (auto simp: scan_literal_def is_digit_def)
  then show ?thesis by (simp only: s(1))
qed

lemma skip_ws_nonws: "\<not> is_ws c \<Longrightarrow> skip_ws (c # s) = c # s"
  by (simp add: skip_ws_def)

lemma skip_ws_space: "skip_ws (CHR '' '' # s) = skip_ws s"
  by (simp add: skip_ws_def is_ws_def)

lemma skip_ws_indent: "\<not> is_ws c \<Longrightarrow> skip_ws (newline_indent k @ c # s) = c # s"
  by (simp add: skip_ws_def newline_indent_def is_ws_def dropWhile_append3)

lemma delim_indent: "delim (newline_indent k @ s)"
  by (simp add: delim_def newline_indent_def)

lemma delim_comma: "delim (CHR '','' # s)"
  by (simp add: delim_def)

lemma starts_value_append: "starts_value s \<Longrightarrow> starts_value (s @ t)"
  by (cases s) (auto simp: starts_value_def)

lemma starts_value_show_int: "starts_value (show_int i)"
  using show_int_hd[of i] by (auto simp: starts_value_def is_digit_def is_ws_def)

lemma starts_value_iterencode: "starts_value (iterencode level v)"
proof (cases v)
  case (PInt i)
  then show ?thesis by (simp add: starts_value_show_int)
qed (auto simp: starts_value_def is_ws_def encode_basestring_ascii_def)

lemma starts_value_list: "xs \<noteq> [] \<Longrightarrow> starts_value (iterencode_list level xs)"
  by (cases "(level, xs)" rule: iterencode_list.cases)
     (auto simp: starts_value_iterencode starts_value_append)

lemma skip_ws_value: "starts_value s \<Longrightarrow> skip_ws s = s"
  by (cases s) (auto simp: starts_value_def skip_ws_def)

lemma skip_ws_indent_value: "starts_value s \<Longrightarrow> skip_ws (newline_indent k @ s) = s"
  by (cases s) (auto simp: starts_value_def skip_ws_indent)

lemma starts_value_dict: "kvs \<noteq> [] \<Longrightarrow> \<exists>s. iterencode_dict level kvs = DQUOTE # s"
  by (cases "(level, kvs)" rule: iterencode_dict.cases) (auto simp: encode_basestring_ascii_def)

lemma scan_null: "scan_once (Suc n) (''null'' @ rest) = Inr (PNone, rest)"
  by (simp add: scan_literal_def)

lemma scan_true: "scan_once (Suc n) (''true'' @ rest) = Inr (PBool True, rest)"
  by (simp add: scan_literal_def)

lemma scan_false: "scan_once (Suc n) (''false'' @ rest) = Inr (PBool False, rest)"
  by (simp add: scan_literal_def)

lemma scan_empty_list: "scan_once (Suc n) (''[]'' @ rest) = Inr (PList [], rest)"
  by (simp add: skip_ws_nonws is_ws_def)

lemma scan_empty_dict: "scan_once (Suc n) (''{}'' @ rest) = Inr (PDict [], rest)"
  by (simp add: skip_ws_nonws is_ws_def)

lemma scan_open_list:
  "starts_value s \<Longrightarrow> scan_once (Suc n) (CHR ''['' # newline_indent k @ s) = JSONArray n [] s"
  by (cases s) (simp_all add: skip_ws_indent starts_value_def)

lemma scan_open_dict:
  "scan_once (Suc n) (CHR ''{'' # newline_indent k @ DQUOTE # s) = JSONObject n [] (DQUOTE # s)"
  by (simp add: skip_ws_indent is_ws_def)

lemma array_last:
  "scan_once n s = Inr (v, newline_indent k @ CHR '']'' # rest) \<Longrightarrow>
   JSONArray (Suc n) acc s = Inr (PList (acc @ [v]), rest)"
  by (simp add: skip_ws_indent is_ws_def)

lemma array_more:
  "scan_once n s = Inr (v, CHR '','' # newline_indent k @ t) \<Longrightarrow> starts_value t \<Longrightarrow>
   JSONArray (Suc n) acc s = JSONArray n (acc @ [v]) t"
  by (simp add: skip_ws_nonws is_ws_def skip_ws_indent_value)

lemma object_key:
  "JSONObject (Suc n) acc (encode_basestring_ascii key @ '': '' @ s) =
     (case scan_once n (skip_ws s) of
        Inl e \<Rightarrow> Inl e
      | Inr (v, rest') \<Rightarrow>
          (case skip_ws rest' of
             [] \<Rightarrow> Inl (JSONDecodeError Expecting_comma)
           | d # ds \<Rightarrow>
               if d = CHR ''}'' then Inr (PDict (AList.update key v acc), ds)
               else if d = CHR '','' then JSONObject n (AList.update key v acc) (skip_ws ds)
               else Inl (JSONDecodeError Expecting_comma)))"
  using scanstring_escaped[of key "'': '' @ s"]
  by (simp add: encode_basestring_ascii_def skip_ws_nonws is_ws_def skip_ws_space del: scanstring.simps)

lemma object_last:
  "scan_once n s = Inr (v, newline_indent k @ CHR ''}'' # rest) \<Longrightarrow> starts_value s \<Longrightarrow>
   JSONObject (Suc n) acc (encode_basestring_ascii key @ '': '' @ s) =
     Inr (PDict (AList.update key v acc), rest)"
  by (subst object_key) (simp add: skip_ws_value skip_ws_indent is_ws_def)

lemma object_more:
  "scan_once n s = Inr (v, CHR '','' # newline_indent k @ DQUOTE # t) \<Longrightarrow> starts_value s \<Longrightarrow>
   JSONObject (Suc n) acc (encode_basestring_ascii key @ '': '' @ s) =
     JSONObject n (AList.update key v acc) (DQUOTE # t)"
  by (subst object_key) (simp add: skip_ws_value skip_ws_nonws skip_ws_indent is_ws_def)

lemma fold_update_distinct:
  "distinct (map fst (acc @ kvs)) \<Longrightarrow>
   foldl (\<lambda>d (key, v). AList.update key v d) acc kvs = acc @ kvs"
proof (induction kvs arbitrary: acc)
  case Nil
  then show ?case by simp
next
  case (Cons kv kvs)
  obtain k v where kv: "kv = (k, v)" by (cases kv)
  from Cons.prems kv have "k \<notin> fst ` set acc" by auto
  then have u: "AList.update k v acc = acc @ [(k, v)]"
    by (induction acc) auto
  from Cons.prems kv have "distinct (map fst ((acc @ [(k, v)]) @ kvs))" by simp
  from Cons.IH[OF this] show ?case using kv u by simp
qed

lemma decode_encode:
  "wf_pyval v \<longrightarrow> (\<forall>n rest. cost v \<le> n \<longrightarrow> delim rest \<longrightarrow>
      scan_once n (iterencode level v @ rest) = Inr (v, rest))"
  "xs \<noteq> [] \<longrightarrow> list_all wf_pyval xs \<longrightarrow> (\<forall>n acc k rest. cost_list xs \<le> n \<longrightarrow>
      JSONArray n acc (iterencode_list level xs @ newline_indent k @ CHR '']'' # rest) =
        Inr (PList (acc @ xs), rest))"
  "kvs \<noteq> [] \<longrightarrow> list_all wf_pyval (map snd kvs) \<longrightarrow> (\<forall>n acc k rest. cost_dict kvs \<le> n \<longrightarrow>
      JSONObject n acc (iterencode_dict level kvs @ newline_indent k @ CHR ''}'' # rest) =
        Inr (PDict (foldl (\<lambda>d (key, v). AList.update key v d) acc kvs), rest))"
proof (induction level v and level xs and level kvs
    rule: iterencode_iterencode_list_iterencode_dict.induct)
  case (1 level)
  show ?case
  proof (intro impI allI)
    fix n rest assume "cost PNone \<le> n"
    then obtain m where "n = Suc m" by (cases n) auto
    then show "scan_once n (iterencode level PNone @ rest) = Inr (PNone, rest)"
      using scan_null[of m rest] by simp
  qed
next
  case (2 level b)
  show ?case
  proof (intro impI allI)
    fix n rest assume "cost (PBool b) \<le> n"
    then obtain m where "n = Suc m" by (cases n) auto
    then show "scan_once n (iterencode level (PBool b) @ rest) = Inr (PBool b, rest)"
      using scan_true[of m rest] scan_false[of m rest] by (cases b) simp_all
  qed
next
  case (3 level i)
  show ?case
  proof (intro impI allI)
    fix n rest assume "cost (PInt i) \<le> n" and d: "delim rest"
    then obtain m where "n = Suc m" by (cases n) auto
    then show "scan_once n (iterencode level (PInt i) @ rest) = Inr (PInt i, rest)"
      using scan_number[OF d, of m i] by simp
  qed
next
  case (4 level s)
  show ?case
  proof (intro impI allI)
    fix n rest assume "cost (PStr s) \<le> n"
    then obtain m where "n = Suc m" by (cases n) auto
    then show "scan_once n (iterencode level (PStr s) @ rest) = Inr (PStr s, rest)"
      using scan_string[of m s rest] by simp
  qed
next
  case (5 level xs)
  show ?case
  proof (intro impI allI)
    fix n rest assume wf: "wf_pyval (PList xs)" and c: "cost (PList xs) \<le> n"
    then obtain m where n: "n = Suc m" and m: "cost_list xs \<le> m" by (cases n) auto
    show "scan_once n (iterencode level (PList xs) @ rest) = Inr (PList xs, rest)"
    proof (cases "xs = []")
      case True
      then show ?thesis using scan_empty_list[of m rest] n by simp
    next
      case False
      have sv: "starts_value (iterencode_list (Suc level) xs @ newline_indent level @ CHR '']'' # rest)"
        using starts_value_list[OF False] by (rule starts_value_append)
      have "JSONArray m [] (iterencode_list (Suc level) xs @ newline_indent level @ CHR '']'' # rest)
          = Inr (PList ([] @ xs), rest)"
        using 5 False wf m by simp
      then show ?thesis using False n scan_open_list[OF sv, of m "Suc level"] by simp
    qed
  qed
next
  case (6 level kvs)
  show ?case
  proof (intro impI allI)
    fix n rest assume wf: "wf_pyval (PDict kvs)" and c: "cost (PDict kvs) \<le> n"
    then obtain m where n: "n = Suc m" and m: "cost_dict kvs \<le> m" by (cases n) auto
    show "scan_once n (iterencode level (PDict kvs) @ rest) = Inr (PDict kvs, rest)"
    proof (cases "kvs = []")
      case True
      then show ?thesis using scan_empty_dict[of m rest] n by simp
    next
      case False
      from starts_value_dict[OF False] obtain s where s: "iterencode_dict (Suc level) kvs = DQUOTE # s"
        by blast
      have "JSONObject m [] (iterencode_dict (Suc level) kvs @ newline_indent level @ CHR ''}'' # rest)
          = Inr (PDict (foldl (\<lambda>d (key, v). AList.update key v d) [] kvs), rest)"
        using 6 False wf m by simp
      moreover have "foldl (\<lambda>d (key, v). AList.update key v d) [] kvs = kvs"
        using fold_update_distinct[of "[]" kvs] wf by simp
      ultimately show ?thesis
        using False n scan_open_dict[of m "Suc level" "s @ newline_indent level @ CHR ''}'' # rest"] s
        by simp
    qed
  qed
next
  case (7 level)
  show ?case by simp
next
  case (8 level x)
  show ?case
  proof (intro impI allI)
    fix n acc k rest assume wf: "list_all wf_pyval [x]" and c: "cost_list [x] \<le> n"
    then obtain m where n: "n = Suc m" and m: "cost x \<le> m" by (cases n) auto
    have "scan_once m (iterencode level x @ newline_indent k @ CHR '']'' # rest)
        = Inr (x, newline_indent k @ CHR '']'' # rest)"
      using 8 wf m delim_indent by simp
    from array_last[OF this] show "JSONArray n acc (iterencode_list level [x] @ newline_indent k @ CHR '']'' # rest)
        = Inr (PList (acc @ [x]), rest)"
      using n by simp
  qed
next
  case (9 level x y ys)
  show ?case
  proof (intro impI allI)
    fix n acc k rest assume wf: "list_all wf_pyval (x # y # ys)" and c: "cost_list (x # y # ys) \<le> n"
    then obtain m where n: "n = Suc m" and m: "cost x \<le> m" "cost_list (y # ys) \<le> m"
      by (cases n) auto
    let ?t = "iterencode_list level (y # ys) @ newline_indent k @ CHR '']'' # rest"
    have sv: "starts_value ?t"
      using starts_value_list[of "y # ys" level] by (simp add: starts_value_append)
    have "scan_once m (iterencode level x @ CHR '','' # newline_indent level @ ?t)
        = Inr (x, CHR '','' # newline_indent level @ ?t)"
      using 9(1) wf m(1) delim_comma by simp
    from array_more[OF this sv, of acc]
    have "JSONArray (Suc m) acc (iterencode level x @ CHR '','' # newline_indent level @ ?t)
        = JSONArray m (acc @ [x]) ?t" .
    moreover have "JSONArray m (acc @ [x]) ?t = Inr (PList ((acc @ [x]) @ y # ys), rest)"
      using 9(2) wf m(2) by simp
    ultimately show "JSONArray n acc (iterencode_list level (x # y # ys) @ newline_indent k @ CHR '']'' # rest)
        = Inr (PList (acc @ x # y # ys), rest)"
      using n by simp
  qed
next
  case (10 level)
  show ?case by simp
next
  case (11 level key v)
  show ?case
  proof (intro impI allI)
    fix n acc k rest assume wf: "list_all wf_pyval (map snd [(key, v)])"
      and c: "cost_dict [(key, v)] \<le> n"
    then obtain m where n: "n = Suc m" and m: "cost v \<le> m" by (cases n) auto
    have "scan_once m (iterencode level v @ newline_indent k @ CHR ''}'' # rest)
        = Inr (v, newline_indent k @ CHR ''}'' # rest)"
      using 11 wf m delim_indent by simp
    from object_last[OF this starts_value_append[OF starts_value_iterencode], of acc key]
    show "JSONObject n acc (iterencode_dict level [(key, v)] @ newline_indent k @ CHR ''}'' # rest)
        = Inr (PDict (foldl (\<lambda>d (key, v). AList.update key v d) acc [(key, v)]), rest)"
      using n by simp
  qed
next
  case (12 level key v y ys)
  show ?case
  proof (intro impI allI)
    fix n acc k rest assume wf: "list_all wf_pyval (map snd ((key, v) # y # ys))"
      and c: "cost_dict ((key, v) # y # ys) \<le> n"
    then obtain m where n: "n = Suc m" and m: "cost v \<le> m" "cost_dict (y # ys) \<le> m"
      by (cases n) auto
    from starts_value_dict[of "y # ys" level] obtain s where
      s: "iterencode_dict level (y # ys) = DQUOTE # s" by auto
    let ?t = "s @ newline_indent k @ CHR ''}'' # rest"
    have "scan_once m (iterencode level v @ CHR '','' # newline_indent level @ DQUOTE # ?t)
        = Inr (v, CHR '','' # newline_indent level @ DQUOTE # ?t)"
      using 12(1) wf m(1) delim_comma by simp
    from object_more[OF this starts_value_append[OF starts_value_iterencode], of acc key]
    have "JSONObject (Suc m) acc (encode_basestring_ascii key @ '': '' @ iterencode level v
            @ CHR '','' # newline_indent level @ DQUOTE # ?t)
        = JSONObject m (AList.update key v acc) (DQUOTE # ?t)" by simp
    moreover have "JSONObject m (AList.update key v acc) (DQUOTE # ?t) =
        Inr (PDict (foldl (\<lambda>d (key, v). AList.update key v d) (AList.update key v acc) (y # ys)), rest)"
      using 12(2) wf m(2) s by simp
    ultimately show "JSONObject n acc (iterencode_dict level ((key, v) # y # ys) @ newline_indent k @ CHR ''}'' # rest)
        = Inr (PDict (foldl (\<lambda>d (key, v). AList.update key v d) acc ((key, v) # y # ys)), rest)"
      using n s by simp
  qed
qed

lemma length_show_int: "0 < length (show_int i)"
  using show_int_hd[of i] by auto

lemma cost_le_length:
  "cost v \<le> length (iterencode level v)"
  "xs \<noteq> [] \<longrightarrow> cost_list xs \<le> Suc (length (iterencode_list level xs))"
  "kvs \<noteq> [] \<longrightarrow> cost_dict kvs \<le> Suc (length (iterencode_dict level kvs))"
proof (induction level v and level xs and level kvs
    rule: iterencode_iterencode_list_iterencode_dict.induct)
  case (3 level i)
  then show ?case using length_show_int[of i] by (cases "show_int i") auto
next
  case (5 level xs)
  then show ?case by (cases "xs = []") (auto simp: newline_indent_def)
next
  case (6 level kvs)
  then show ?case by (cases "kvs = []") (auto simp: newline_indent_def)
next
  case (9 level x y ys)
  then show ?case by (simp add: newline_indent_def)
next
  case (12 level k v y ys)
  then show ?case by (simp add: newline_indent_def)
qed (simp_all add: encode_basestring_ascii_def)

lemma json_roundtrip:
  assumes "wf_pyval obj"
  shows "json_loads (json_dumps obj) = Inr obj"
proof -
  let ?s = "iterencode 0 obj"
  have c: "cost obj \<le> 2 * length ?s + 1" using cost_le_length(1)[of obj 0] by simp
  have d: "delim []" by (simp add: delim_def)
  have "scan_once (2 * length ?s + 1) (?s @ []) = Inr (obj, [])"
    using decode_encode(1)[of obj 0, rule_format, OF assms c d] .
  moreover have "skip_ws ?s = ?s" using starts_value_iterencode by (rule skip_ws_value)
  ultimately show ?thesis by (simp add: json_loads_def json_dumps_def skip_ws_def)
qed

section \<open>The decoder has fuel enough\<close>

text \<open>
  Every successful call of the decoder consumes input, so the fuel \<open>json_loads\<close> hands
  out is never used up, on any text: the fuel does not show in its result.
\<close>

lemma length_skip_ws: "length (skip_ws s) \<le> length s"
  by (simp add: skip_ws_def length_dropWhile_le)

lemma skip_ws_Cons_le: "skip_ws s = d # ds \<Longrightarrow> length ds < length s"
  using length_skip_ws[of s] by simp

lemma cons_char_Inr:
  "cons_char c r = Inr (str, rest) \<Longrightarrow> \<exists>str'. r = Inr (str', rest)"
  by (auto simp: cons_char_def split: sum.splits)

lemma scanstring_consumes:
  "scanstring s = Inr (str, rest) \<Longrightarrow> length rest < length s"
proof (induction s arbitrary: str rule: scanstring.induct)
  case 1
  then show ?case by simp
next
  case (2 c cs)
  show ?case
  proof (cases "c = DQUOTE")
    case True
    with 2(4) show ?thesis by simp
  next
    case nq: False
    show ?thesis
    proof (cases "c = BACKSLASH")
      case True
      with nq 2(4) obtain e es where cs: "cs = e # es" by (cases cs) auto
      show ?thesis
      proof (cases "e = CHR ''u''")
        case u: True
        with nq True cs 2(4) obtain h1 h2 h3 h4 r where es: "es = h1 # h2 # h3 # h4 # r"
          by (auto split: list.splits)
        with nq True cs u 2(4) obtain n where n: "decode_uXXXX h1 h2 h3 h4 = Some n" "n < 256"
          "cons_char (char_of n) (scanstring r) = Inr (str, rest)"
          by (auto split: option.splits if_splits)
        from cons_char_Inr[OF n(3)] obtain str' where "scanstring r = Inr (str', rest)" by blast
        with 2(1)[OF nq True cs u, of h1 "h2 # h3 # h4 # r" h2 "h3 # h4 # r" h3 "h4 # r" h4 r n str']
          es n(1,2)
        show ?thesis using cs by simp
      next
        case nu: False
        with nq True cs 2(4) obtain ch where ch: "unescape e = Some ch"
          "cons_char ch (scanstring es) = Inr (str, rest)"
          by (auto split: option.splits)
        from cons_char_Inr[OF ch(2)] obtain str' where "scanstring es = Inr (str', rest)" by blast
        from 2(2)[OF nq True cs nu ch(1) this] show ?thesis using cs by simp
      qed
    next
      case nb: False
      with nq 2(4) have ctl: "\<not> (of_char c :: nat) < 0x20"
        and r: "cons_char c (scanstring cs) = Inr (str, rest)"
        by (auto split: if_splits)
      from cons_char_Inr[OF r] obtain str' where "scanstring cs = Inr (str', rest)" by blast
      from 2(3)[OF nq nb ctl this] show ?thesis by simp
    qed
  qed
qed

lemma match_integer_consumes:
  "match_integer s = Some (ds, rest) \<Longrightarrow> length rest < length s"
proof (cases s)
  case Nil
  assume "match_integer s = Some (ds, rest)"
  with Nil show ?thesis by (simp add: match_integer_def)
next
  case (Cons c cs)
  assume m: "match_integer s = Some (ds, rest)"
  show ?thesis
  proof (cases "c = CHR ''0''")
    case True
    with m Cons show ?thesis by (simp add: match_integer_def)
  next
    case False
    with m Cons have "is_digit c" and "rest = dropWhile is_digit cs"
      by (auto simp: match_integer_def split: if_splits)
    then show ?thesis using Cons length_dropWhile_le[of is_digit cs] by simp
  qed
qed

lemma match_number_consumes:
  "match_number s = Some (Inr (v, rest)) \<Longrightarrow> length rest < length s"
  by (auto simp: match_number_def Let_def split: list.splits if_splits option.splits prod.splits
      dest!: match_integer_consumes)

lemma scan_literal_consumes:
  assumes "scan_literal s = Inr (v, rest)"
  shows "length rest < length s"
proof -
  have t: "take k s = lit \<Longrightarrow> 0 < length lit \<Longrightarrow> 0 < k \<Longrightarrow> length (drop k s) < length s" for k lit
    by (cases s) auto
  consider (null) "take 4 s = ''null''"
    | (true) "take 4 s \<noteq> ''null''" "take 4 s = ''true''"
    | (false) "take 4 s \<noteq> ''null''" "take 4 s \<noteq> ''true''" "take 5 s = ''false''"
    | (num) "take 4 s \<noteq> ''null''" "take 4 s \<noteq> ''true''" "take 5 s \<noteq> ''false''"
    by blast
  then show ?thesis
  proof cases
    case null
    with assms have "rest = drop 4 s" by (simp add: scan_literal_def)
    with t[OF null] show ?thesis by simp
  next
    case true
    with assms have "rest = drop 4 s" by (simp add: scan_literal_def)
    with t[OF true(2)] show ?thesis by simp
  next
    case false
    with assms have "rest = drop 5 s" by (simp add: scan_literal_def)
    with t[OF false(3)] show ?thesis by simp
  next
    case num
    with assms have "match_number s = Some (Inr (v, rest))"
      by (simp add: scan_literal_def split: option.splits if_splits)
    then show ?thesis by (rule match_number_consumes)
  qed
qed

lemma scan_once_string:
  "scan_once (Suc n) (DQUOTE # cs) =
     (case scanstring cs of Inl e \<Rightarrow> Inl e | Inr (str, rest) \<Rightarrow> Inr (PStr str, rest))"
  by simp

lemma scan_once_object:
  "scan_once (Suc n) (CHR ''{'' # cs) =
     (case skip_ws cs of
        [] \<Rightarrow> Inl (JSONDecodeError Expecting_property_name)
      | d # ds \<Rightarrow> if d = CHR ''}'' then Inr (PDict [], ds) else JSONObject n [] (d # ds))"
  by simp

lemma scan_once_array:
  "scan_once (Suc n) (CHR ''['' # cs) =
     (case skip_ws cs of
        [] \<Rightarrow> Inl (JSONDecodeError Expecting_value)
      | d # ds \<Rightarrow> if d = CHR '']'' then Inr (PList [], ds) else JSONArray n [] (d # ds))"
  by simp

lemma scan_once_literal:
  "c \<noteq> DQUOTE \<Longrightarrow> c \<noteq> CHR ''{'' \<Longrightarrow> c \<noteq> CHR ''['' \<Longrightarrow>
   scan_once (Suc n) (c # cs) = scan_literal (c # cs)"
  by simp

lemma decoder_consumes:
  "(\<forall>s v rest. scan_once n s = Inr (v, rest) \<longrightarrow> length rest < length s) \<and>
   (\<forall>acc s v rest. JSONArray n acc s = Inr (v, rest) \<longrightarrow> length rest < length s) \<and>
   (\<forall>acc s v rest. JSONObject n acc s = Inr (v, rest) \<longrightarrow> length rest < length s)"
proof (induction n)
  case 0
  show ?case by simp
next
  case (Suc n)
  then have val: "\<And>s v rest. scan_once n s = Inr (v, rest) \<Longrightarrow> length rest < length s"
    and arr: "\<And>acc s v rest. JSONArray n acc s = Inr (v, rest) \<Longrightarrow> length rest < length s"
    and obj: "\<And>acc s v rest. JSONObject n acc s = Inr (v, rest) \<Longrightarrow> length rest < length s"
    by blast+
  have 1: "length rest < length s" if r: "scan_once (Suc n) s = Inr (v, rest)" for s v rest
  proof (cases s)
    case Nil
    with r show ?thesis by simp
  next
    case (Cons c cs)
    consider (str) "c = DQUOTE" | (obj) "c = CHR ''{''" | (arr) "c = CHR ''[''"
      | (other) "c \<noteq> DQUOTE" "c \<noteq> CHR ''{''" "c \<noteq> CHR ''[''" by blast
    then show ?thesis
    proof cases
      case str
      with r Cons obtain x where "scanstring cs = Inr (x, rest)"
        by (auto simp: scan_once_string simp del: scan_once.simps split: sum.splits)
      from scanstring_consumes[OF this] show ?thesis using Cons by simp
    next
      case obj
      show ?thesis
      proof (cases "skip_ws cs")
        case Nil
        with r Cons obj show ?thesis by (simp add: scan_once_object del: scan_once.simps)
      next
        case (Cons d ds)
        have l: "length ds < length cs" using Cons by (rule skip_ws_Cons_le)
        show ?thesis
        proof (cases "d = CHR ''}''")
          case True
          with r \<open>s = c # cs\<close> obj Cons l show ?thesis
            by (simp add: scan_once_object del: scan_once.simps)
        next
          case False
          with r \<open>s = c # cs\<close> obj Cons have "JSONObject n [] (d # ds) = Inr (v, rest)"
            by (simp add: scan_once_object del: scan_once.simps)
          from Suc.IH[THEN conjunct2, THEN conjunct2, rule_format, OF this] l
          show ?thesis using \<open>s = c # cs\<close> by simp
        qed
      qed
    next
      case arr
      show ?thesis
      proof (cases "skip_ws cs")
        case Nil
        with r Cons arr show ?thesis by (simp add: scan_once_array del: scan_once.simps)
      next
        case (Cons d ds)
        have l: "length ds < length cs" using Cons by (rule skip_ws_Cons_le)
        show ?thesis
        proof (cases "d = CHR '']''")
          case True
          with r \<open>s = c # cs\<close> arr Cons l show ?thesis
            by (simp add: scan_once_array del: scan_once.simps)
        next
          case False
          with r \<open>s = c # cs\<close> arr Cons have "JSONArray n [] (d # ds) = Inr (v, rest)"
            by (simp add: scan_once_array del: scan_once.simps)
          from Suc.IH[THEN conjunct2, THEN conjunct1, rule_format, OF this] l
          show ?thesis using \<open>s = c # cs\<close> by simp
        qed
      qed
    next
      case other
      with r Cons have "scan_literal s = Inr (v, rest)"
        by (simp add: scan_once_literal del: scan_once.simps)
      then show ?thesis by (rule scan_literal_consumes)
    qed
  qed
  have 2: "length rest < length s" if r: "JSONArray (Suc n) acc s = Inr (v, rest)" for acc s v rest
  proof -
    from r obtain x r1 where x: "scan_once n s = Inr (x, r1)"
      by (cases "scan_once n s") auto
    from val[OF x] have l1: "length r1 < length s" .
    from r x obtain d ds where d: "skip_ws r1 = d # ds"
      by (cases "skip_ws r1") auto
    have l2: "length ds < length r1" using d by (rule skip_ws_Cons_le)
    show ?thesis
    proof (cases "d = CHR '']''")
      case True
      with r x d l1 l2 show ?thesis by simp
    next
      case False
      with r x d have "JSONArray n (acc @ [x]) (skip_ws ds) = Inr (v, rest)"
        by (auto split: if_splits)
      from arr[OF this] length_skip_ws[of ds] l1 l2 show ?thesis by simp
    qed
  qed
  have 3: "length rest < length s" if r: "JSONObject (Suc n) acc s = Inr (v, rest)" for acc s v rest
  proof -
    from r obtain q s' where s: "s = q # s'" "q = DQUOTE"
      by (cases s) (auto split: if_splits)
    from r s obtain key r1 where k: "scanstring s' = Inr (key, r1)"
      by (cases "scanstring s'") (auto simp del: scanstring.simps)
    from scanstring_consumes[OF k] have l1: "length r1 < length s'" .
    from r s k obtain c cs where c: "skip_ws r1 = c # cs" "c = CHR '':''"
      by (cases "skip_ws r1") (auto simp del: scanstring.simps split: if_splits)
    have l2: "length cs < length r1" using c(1) by (rule skip_ws_Cons_le)
    from r s k c obtain x r2 where x: "scan_once n (skip_ws cs) = Inr (x, r2)"
      by (cases "scan_once n (skip_ws cs)") (auto simp del: scanstring.simps)
    from val[OF x] length_skip_ws[of cs] have l3: "length r2 < length cs" by simp
    from r s k c x obtain d ds where d: "skip_ws r2 = d # ds"
      by (cases "skip_ws r2") (auto simp del: scanstring.simps)
    have l4: "length ds < length r2" using d by (rule skip_ws_Cons_le)
    show ?thesis
    proof (cases "d = CHR ''}''")
      case True
      with r s k c x d l1 l2 l3 l4 show ?thesis by (simp del: scanstring.simps)
    next
      case False
      with r s k c x d have "JSONObject n (AList.update key x acc) (skip_ws ds) = Inr (v, rest)"
        by (auto simp del: scanstring.simps split: if_splits)
      from obj[OF this] length_skip_ws[of ds] l1 l2 l3 l4 s show ?thesis by simp
    qed
  qed
  from 1 2 3 show ?case by blast
qed

lemma cons_char_Inl: "cons_char c r = Inl e \<Longrightarrow> r = Inl e"
  by (auto simp: cons_char_def split: sum.splits)

lemma scanstring_no_fuel: "scanstring s \<noteq> Inl (Not_modelled ''fuel'')"
proof (induction s rule: scanstring.induct)
  case 1
  show ?case by simp
next
  case (2 c cs)
  show ?case
  proof
    assume a: "scanstring (c # cs) = Inl (Not_modelled ''fuel'')"
    show False
    proof (cases "c = DQUOTE")
      case True
      with a show False by simp
    next
      case nq: False
      show False
      proof (cases "c = BACKSLASH")
        case True
        with nq a obtain e es where cs: "cs = e # es" by (cases cs) auto
        show False
        proof (cases "e = CHR ''u''")
          case u: True
          with nq True cs a obtain h1 h2 h3 h4 r where es: "es = h1 # h2 # h3 # h4 # r"
            by (auto split: list.splits)
          with nq True cs u a obtain n where n: "decode_uXXXX h1 h2 h3 h4 = Some n" "n < 256"
            "cons_char (char_of n) (scanstring r) = Inl (Not_modelled ''fuel'')"
            by (auto split: option.splits if_splits)
          from cons_char_Inl[OF n(3)]
            2(1)[OF nq True cs u, of h1 "h2 # h3 # h4 # r" h2 "h3 # h4 # r" h3 "h4 # r" h4 r n]
            es n(1,2)
          show False by simp
        next
          case nu: False
          with nq True cs a obtain ch where ch: "unescape e = Some ch"
            "cons_char ch (scanstring es) = Inl (Not_modelled ''fuel'')"
            by (auto split: option.splits)
          from cons_char_Inl[OF ch(2)] 2(2)[OF nq True cs nu ch(1)] show False by simp
        qed
      next
        case nb: False
        with nq a have ctl: "\<not> (of_char c :: nat) < 0x20"
          and r: "cons_char c (scanstring cs) = Inl (Not_modelled ''fuel'')"
          by (auto split: if_splits)
        from cons_char_Inl[OF r] 2(3)[OF nq nb ctl] show False by simp
      qed
    qed
  qed
qed

lemma scan_literal_no_fuel: "scan_literal s \<noteq> Inl (Not_modelled ''fuel'')"
  by (auto simp: scan_literal_def match_number_def Let_def
      split: option.splits if_splits prod.splits list.splits)

lemma decoder_fuel:
  "(\<forall>s. 2 * length s < n \<longrightarrow> scan_once n s \<noteq> Inl (Not_modelled ''fuel'')) \<and>
   (\<forall>acc s. 2 * length s + 1 < n \<longrightarrow> JSONArray n acc s \<noteq> Inl (Not_modelled ''fuel'')) \<and>
   (\<forall>acc s. 2 * length s + 1 < n \<longrightarrow> JSONObject n acc s \<noteq> Inl (Not_modelled ''fuel''))"
proof (induction n)
  case 0
  show ?case by simp
next
  case (Suc n)
  then have ihv: "\<And>s. 2 * length s < n \<Longrightarrow> scan_once n s \<noteq> Inl (Not_modelled ''fuel'')"
    and iha: "\<And>acc s. 2 * length s + 1 < n \<Longrightarrow> JSONArray n acc s \<noteq> Inl (Not_modelled ''fuel'')"
    and iho: "\<And>acc s. 2 * length s + 1 < n \<Longrightarrow> JSONObject n acc s \<noteq> Inl (Not_modelled ''fuel'')"
    by blast+
  have 1: "scan_once (Suc n) s \<noteq> Inl (Not_modelled ''fuel'')" if b: "2 * length s < Suc n" for s
  proof (cases s)
    case Nil
    then show ?thesis by simp
  next
    case (Cons c cs)
    consider (str) "c = DQUOTE" | (obj) "c = CHR ''{''" | (arr) "c = CHR ''[''"
      | (other) "c \<noteq> DQUOTE" "c \<noteq> CHR ''{''" "c \<noteq> CHR ''[''" by blast
    then show ?thesis
    proof cases
      case str
      then show ?thesis using Cons scanstring_no_fuel[of cs]
        by (cases "scanstring cs") (auto simp: scan_once_string simp del: scan_once.simps)
    next
      case obj
      show ?thesis
      proof (cases "skip_ws cs")
        case Nil
        with Cons obj show ?thesis by (simp add: scan_once_object del: scan_once.simps)
      next
        case (Cons d ds)
        have "length ds < length cs" using Cons by (rule skip_ws_Cons_le)
        with b \<open>s = c # cs\<close> have "2 * length (d # ds) + 1 < n" by simp
        from iho[OF this] show ?thesis using \<open>s = c # cs\<close> \<open>c = CHR ''{''\<close> Cons
          by (simp add: scan_once_object del: scan_once.simps)
      qed
    next
      case arr
      show ?thesis
      proof (cases "skip_ws cs")
        case Nil
        with Cons arr show ?thesis by (simp add: scan_once_array del: scan_once.simps)
      next
        case (Cons d ds)
        have "length ds < length cs" using Cons by (rule skip_ws_Cons_le)
        with b \<open>s = c # cs\<close> have "2 * length (d # ds) + 1 < n" by simp
        from iha[OF this] show ?thesis using \<open>s = c # cs\<close> \<open>c = CHR ''[''\<close> Cons
          by (simp add: scan_once_array del: scan_once.simps)
      qed
    next
      case other
      then show ?thesis using Cons scan_literal_no_fuel[of s]
        by (simp add: scan_once_literal del: scan_once.simps)
    qed
  qed
  have 2: "JSONArray (Suc n) acc s \<noteq> Inl (Not_modelled ''fuel'')"
    if b: "2 * length s + 1 < Suc n" for acc s
  proof (cases "scan_once n s")
    case (Inl e)
    from b have "2 * length s < n" by simp
    from ihv[OF this] Inl show ?thesis by simp
  next
    case (Inr p)
    obtain x r1 where p: "p = (x, r1)" by (cases p)
    from decoder_consumes[of n] Inr p have l1: "length r1 < length s" by blast
    show ?thesis
    proof (cases "skip_ws r1")
      case Nil
      with Inr p show ?thesis by simp
    next
      case (Cons d ds)
      have "length ds < length r1" using Cons by (rule skip_ws_Cons_le)
      with l1 b length_skip_ws[of ds] have "2 * length (skip_ws ds) + 1 < n" by simp
      from iha[OF this] show ?thesis using Inr p Cons by simp
    qed
  qed
  have 3: "JSONObject (Suc n) acc s \<noteq> Inl (Not_modelled ''fuel'')"
    if b: "2 * length s + 1 < Suc n" for acc s
  proof (cases s)
    case Nil
    then show ?thesis by simp
  next
    case (Cons q s')
    show ?thesis
    proof (cases "q = DQUOTE")
      case False
      with Cons show ?thesis by simp
    next
      case True
      show ?thesis
      proof (cases "scanstring s'")
        case (Inl e)
        with scanstring_no_fuel[of s'] Cons True show ?thesis by (simp del: scanstring.simps)
      next
        case (Inr p)
        obtain key r1 where p: "p = (key, r1)" by (cases p)
        from scanstring_consumes[of s' key r1] Inr p have l1: "length r1 < length s'" by simp
        show ?thesis
        proof (cases "skip_ws r1")
          case Nil
          with Cons True Inr p show ?thesis by (simp del: scanstring.simps)
        next
          case c: (Cons c cs)
          have l2: "length cs < length r1" using c by (rule skip_ws_Cons_le)
          show ?thesis
          proof (cases "c = CHR '':''")
            case False
            with Cons True Inr p c show ?thesis by (simp del: scanstring.simps)
          next
            case colon: True
            show ?thesis
            proof (cases "scan_once n (skip_ws cs)")
              case (Inl e)
              from b Cons l1 l2 length_skip_ws[of cs] have "2 * length (skip_ws cs) < n" by simp
              from ihv[OF this] Inl Cons True \<open>scanstring s' = Inr p\<close> p c colon show ?thesis
                by (simp del: scanstring.simps)
            next
              case v: (Inr pv)
              obtain x r2 where pv: "pv = (x, r2)" by (cases pv)
              from decoder_consumes[of n] v pv length_skip_ws[of cs]
              have l3: "length r2 < length cs" by fastforce
              show ?thesis
              proof (cases "skip_ws r2")
                case Nil
                with Cons True \<open>scanstring s' = Inr p\<close> p c colon v pv show ?thesis
                  by (simp del: scanstring.simps)
              next
                case d: (Cons d ds)
                have "length ds < length r2" using d by (rule skip_ws_Cons_le)
                with b Cons l1 l2 l3 length_skip_ws[of ds]
                have "2 * length (skip_ws ds) + 1 < n" by simp
                from iho[OF this] show ?thesis
                  using Cons True \<open>scanstring s' = Inr p\<close> p c colon v pv d
                  by (simp del: scanstring.simps)
              qed
            qed
          qed
        qed
      qed
    qed
  qed
  from 1 2 3 show ?case by blast
qed

lemma json_loads_no_fuel: "json_loads s \<noteq> Inl (Not_modelled ''fuel'')"
proof -
  have "2 * length (skip_ws s) < 2 * length s + 1" using length_skip_ws[of s] by simp
  with decoder_fuel[of "2 * length s + 1"]
  have "scan_once (2 * length s + 1) (skip_ws s) \<noteq> Inl (Not_modelled ''fuel'')" by blast
  then show ?thesis by (auto simp: json_loads_def split: sum.splits)
qed

section \<open>Trees built by \<open>add_song\<close>, saved and loaded\<close>

lemma is_record_wf: "is_record v \<Longrightarrow> wf_pyval v"
proof (cases v)
  case (PDict kvs)
  assume "is_record v"
  with PDict have d: "distinct (map fst kvs)" and s: "list_all is_scalar (map snd kvs)" by auto
  have "is_scalar x \<Longrightarrow> wf_pyval x" for x by (cases x) auto
  with s have "list_all wf_pyval (map snd kvs)" by (auto simp: list_all_iff)
  with d PDict show ?thesis by simp
qed auto

lemma is_node_wf: "is_node n v \<Longrightarrow> wf_pyval v"
proof (induction n arbitrary: v)
  case 0
  then show ?case by (simp add: is_record_wf)
next
  case (Suc n)
  then obtain kvs where v: "v = PDict kvs" and d: "distinct (map fst kvs)"
    and ch: "list_all (is_node n) (map snd kvs)"
    by (cases v) auto
  from ch Suc.IH have "list_all wf_pyval (map snd kvs)" by (auto simp: list_all_iff)
  with d v show ?case by simp
qed

lemma is_catalog_wf: "is_catalog Y \<Longrightarrow> wf_pyval Y"
  unfolding is_catalog_def by (rule is_node_wf)



lemma files_save: "files (save_yggdrasil filename s) filename = Some (json_dumps (Yggdrasil s))"
  by (simp add: save_yggdrasil_def fp_write_def open_w_def)


lemma json_dumps_empty: "json_dumps (PDict []) = ''{}''"
  by (simp add: json_dumps_def)

lemma json_dumps_nonempty: "json_dumps obj \<noteq> []"
  using starts_value_iterencode[of 0 obj] by (auto simp: json_dumps_def starts_value_def)

section \<open>The claims of the specification\<close>

subsection \<open>C1: the round trip of save and load\<close>



subsection \<open>C2: \<open>add_song\<close> creates the path\<close>

text \<open>
  C2 (path creation). On a catalog, \<open>add_song\<close> with a song record, or with no record,
  never raises and leaves a catalog. Afterwards the lookup of the path returns the
  record (the empty dictionary when the record is missing; \<open>metadata or {}\<close> also
  stores a new empty dictionary for the empty record, which is the same value), and each
  key of the path is among the keys listed at its ancestor prefix. A node that was missing before
  (subscripting to it raised) has been created empty: afterwards it holds the new path
  and nothing else.
\<close>

theorem add_song_creates_path:
  assumes cat: "is_catalog Y" and md: "is_record metadata \<or> metadata = PNone"
  shows "\<exists>Y'. add_song genre artist album song_name metadata Y = (None, Y') \<and>
           is_catalog Y' \<and>
           lookup Y' genre artist album song_name =
             Inr (if metadata = PNone then PDict [] else metadata) \<and>
           (\<exists>ks. enumerate_keys Y' [] = Inr ks \<and> genre \<in> set ks) \<and>
           (\<exists>ks. enumerate_keys Y' [genre] = Inr ks \<and> artist \<in> set ks) \<and>
           (\<exists>ks. enumerate_keys Y' [genre, artist] = Inr ks \<and> album \<in> set ks) \<and>
           (\<exists>ks. enumerate_keys Y' [genre, artist, album] = Inr ks \<and> song_name \<in> set ks) \<and>
           ((\<exists>e. subscript Y [genre] = Inl e) \<longrightarrow>
              subscript Y' [genre] =
                Inr (PDict [(artist, PDict [(album, PDict [(song_name,
                       if metadata = PNone then PDict [] else metadata)])])])) \<and>
           ((\<exists>e. subscript Y [genre, artist] = Inl e) \<longrightarrow>
              subscript Y' [genre, artist] =
                Inr (PDict [(album, PDict [(song_name,
                       if metadata = PNone then PDict [] else metadata)])])) \<and>
           ((\<exists>e. subscript Y [genre, artist, album] = Inl e) \<longrightarrow>
              subscript Y' [genre, artist, album] =
                Inr (PDict [(song_name, if metadata = PNone then PDict [] else metadata)]))"
proof -
  let ?r = "if metadata = PNone then PDict [] else metadata"
  let ?p = "[genre, artist, album, song_name]"
  let ?Y' = "put ?p ?r Y"
  have c4: "is_node 4 Y" using cat by (simp add: is_catalog_def)
  then have n4: "is_node (Suc (Suc (Suc (Suc 0)))) Y" by (simp add: eval_nat_numeral)
  have r0: "is_node 0 ?r" using stored_is_record[OF md] stored_record[OF md] by simp
  have np: "is_node (length ?p + 0) Y" using n4 by simp
  have run: "add_song genre artist album song_name metadata Y = (None, ?Y')"
    using add_song_put[OF c4] stored_record[OF md] by simp
  have cat': "is_catalog ?Y'"
    using put_is_node[OF np r0] by (simp add: is_catalog_def eval_nat_numeral)
  have look: "lookup ?Y' genre artist album song_name = Inr ?r"
    unfolding lookup_def using np by (rule subscript_put_self)
  have k0: "\<exists>ks. enumerate_keys ?Y' [] = Inr ks \<and> genre \<in> set ks"
    using put_new_key_enum[of "[]" genre "[artist, album, song_name]" 0 Y ?r] n4 by simp
  have k1: "\<exists>ks. enumerate_keys ?Y' [genre] = Inr ks \<and> artist \<in> set ks"
    using put_new_key_enum[of "[genre]" artist "[album, song_name]" 0 Y ?r] n4 by simp
  have k2: "\<exists>ks. enumerate_keys ?Y' [genre, artist] = Inr ks \<and> album \<in> set ks"
    using put_new_key_enum[of "[genre, artist]" album "[song_name]" 0 Y ?r] n4 by simp
  have k3: "\<exists>ks. enumerate_keys ?Y' [genre, artist, album] = Inr ks \<and> song_name \<in> set ks"
    using put_new_key_enum[of "[genre, artist, album]" song_name "[]" 0 Y ?r] n4 by simp
  have c1: "(\<exists>e. subscript Y [genre] = Inl e) \<longrightarrow>
      subscript ?Y' [genre] = Inr (PDict [(artist, PDict [(album, PDict [(song_name, ?r)])])])"
    using put_created[of "[]" genre "Suc (Suc (Suc 0))" Y "[artist, album, song_name]" ?r] n4
    by simp
  have c2: "(\<exists>e. subscript Y [genre, artist] = Inl e) \<longrightarrow>
      subscript ?Y' [genre, artist] = Inr (PDict [(album, PDict [(song_name, ?r)])])"
    using put_created[of "[genre]" artist "Suc (Suc 0)" Y "[album, song_name]" ?r] n4
    by simp
  have c3: "(\<exists>e. subscript Y [genre, artist, album] = Inl e) \<longrightarrow>
      subscript ?Y' [genre, artist, album] = Inr (PDict [(song_name, ?r)])"
    using put_created[of "[genre, artist]" album "Suc 0" Y "[song_name]" ?r] n4
    by simp
  from run cat' look k0 k1 k2 k3 c1 c2 c3 show ?thesis by blast
qed

theorem add_song_creates_path_witness:
  "is_catalog (PDict []) \<and> is_record bohemian_record \<and>
   fst (add_song ''Rock'' ''Queen'' ''A Night at the Opera'' ''Bohemian Rhapsody''
          bohemian_record (PDict [])) = None \<and>
   lookup (snd (add_song ''Rock'' ''Queen'' ''A Night at the Opera'' ''Bohemian Rhapsody''
          bohemian_record (PDict [])))
      ''Rock'' ''Queen'' ''A Night at the Opera'' ''Bohemian Rhapsody'' = Inr bohemian_record \<and>
   subscript (PDict []) [''Rock''] = Inl (KeyError ''Rock'') \<and>
   subscript (snd (add_song ''Rock'' ''Queen'' ''A Night at the Opera'' ''Bohemian Rhapsody''
          bohemian_record (PDict []))) [''Rock''] =
     Inr (PDict [(''Queen'', PDict [(''A Night at the Opera'',
            PDict [(''Bohemian Rhapsody'', bohemian_record)])])]) \<and>
   lookup (snd (add_song ''Rock'' ''Queen'' ''A Night at the Opera'' ''Bohemian Rhapsody''
          PNone (PDict [])))
      ''Rock'' ''Queen'' ''A Night at the Opera'' ''Bohemian Rhapsody'' = Inr (PDict [])"
proof -
  have c: "is_catalog (PDict [])" by (simp add: is_catalog_def)
  have rr: "is_record bohemian_record" by (simp add: bohemian_record_def)
  then have r: "is_record bohemian_record \<or> bohemian_record = PNone" by simp
  have ne: "bohemian_record \<noteq> PNone" by (simp add: bohemian_record_def)
  have n: "is_record PNone \<or> PNone = PNone" by simp
  have m: "subscript (PDict []) [''Rock''] = Inl (KeyError ''Rock'')" by simp
  from add_song_creates_path[OF c r, of "''Rock''" "''Queen''" "''A Night at the Opera''"
      "''Bohemian Rhapsody''"]
    add_song_creates_path[OF c n, of "''Rock''" "''Queen''" "''A Night at the Opera''"
      "''Bohemian Rhapsody''"] c rr ne m
  show ?thesis by auto
qed

subsection \<open>C3: random selection\<close>

text \<open>
  C3 (sampling validity), refuted as stated. On the empty tree \<open>random_genre\<close> makes no
  check: it hands the empty list of keys to \<open>random.choice\<close>, and what is raised is
  the \<open>IndexError\<close> of \<open>random.choice\<close>. That is not an \<open>EmptyCollectionError\<close>, a
  class the program does not define, under any of its names.
\<close>

theorem sampling_raises_IndexError:
  "keys (PDict []) = Inr [] \<and>
   random_genre (PDict []) (sconst 7) = choice [] (sconst 7) \<and>
   random_genre (PDict []) (sconst 7) = (Inl IndexError, sconst 7) \<and>
   ''EmptyCollectionError'' \<notin> set (mro IndexError)"
  by (simp add: random_genre_def choice_of_def choice_def)

text \<open>
  C3 as amended. For each of the four levels: when the prefix leads to a node with the
  keys \<open>ks\<close>, the random function of the level returns a member of \<open>ks\<close> if \<open>ks\<close> is not
  empty; if it is empty it raises \<open>IndexError\<close>, the error of \<open>random.choice\<close> on an
  empty sequence, and the generator is left as it was: nothing was drawn.
\<close>

theorem sampling_validity:
  "(enumerate_keys Y [] = Inr gs \<longrightarrow>
      (gs \<noteq> [] \<longrightarrow> (\<exists>k. random_genre Y g = (Inr k, stl g) \<and> k \<in> set gs)) \<and>
      (gs = [] \<longrightarrow> random_genre Y g = (Inl IndexError, g))) \<and>
   (enumerate_keys Y [genre] = Inr as \<longrightarrow>
      (as \<noteq> [] \<longrightarrow> (\<exists>k. random_artist Y genre g = (Inr k, stl g) \<and> k \<in> set as)) \<and>
      (as = [] \<longrightarrow> random_artist Y genre g = (Inl IndexError, g))) \<and>
   (enumerate_keys Y [genre, artist] = Inr als \<longrightarrow>
      (als \<noteq> [] \<longrightarrow> (\<exists>k. random_album Y genre artist g = (Inr k, stl g) \<and> k \<in> set als)) \<and>
      (als = [] \<longrightarrow> random_album Y genre artist g = (Inl IndexError, g))) \<and>
   (enumerate_keys Y [genre, artist, album] = Inr ss \<longrightarrow>
      (ss \<noteq> [] \<longrightarrow> (\<exists>k. random_song Y genre artist album g = (Inr k, stl g) \<and> k \<in> set ss)) \<and>
      (ss = [] \<longrightarrow> random_song Y genre artist album g = (Inl IndexError, g)))"
  unfolding random_enumerate
  using choice_valid[of gs g] choice_valid[of as g] choice_valid[of als g] choice_valid[of ss g]
  by simp

theorem sampling_validity_witness:
  "enumerate_keys queen_tree [] = Inr [''Rock''] \<and>
   random_genre queen_tree (sconst 7) = (Inr ''Rock'', sconst 7) \<and>
   enumerate_keys queen_tree [''Rock'', ''Queen'', ''A Night at the Opera''] =
     Inr [''Bohemian Rhapsody''] \<and>
   random_song queen_tree ''Rock'' ''Queen'' ''A Night at the Opera'' (sconst 7) =
     (Inr ''Bohemian Rhapsody'', sconst 7) \<and>
   enumerate_keys (PDict []) [] = Inr [] \<and>
   random_genre (PDict []) (sconst 7) = (Inl IndexError, sconst 7) \<and>
   enumerate_keys (PDict [(''Rock'', PDict [])]) [''Rock''] = Inr [] \<and>
   random_artist (PDict [(''Rock'', PDict [])]) ''Rock'' (sconst 7) = (Inl IndexError, sconst 7)"
proof -
  have e: "enumerate_keys queen_tree [] = Inr [''Rock'']"
    "enumerate_keys queen_tree [''Rock'', ''Queen'', ''A Night at the Opera''] =
       Inr [''Bohemian Rhapsody'']"
    "enumerate_keys (PDict []) [] = Inr []"
    "enumerate_keys (PDict [(''Rock'', PDict [])]) [''Rock''] = Inr []"
    by (simp_all add: enumerate_keys_def queen_tree_def)
  from sampling_validity[of queen_tree "[''Rock'']" "sconst 7" "''Rock''" "[]" "''Queen''" "[]"
      "''A Night at the Opera''" "[''Bohemian Rhapsody'']"]
    sampling_validity[of "PDict []" "[]" "sconst 7" "''Rock''" "[]" "''Queen''" "[]"
      "''A Night at the Opera''" "[]"]
    sampling_validity[of "PDict [(''Rock'', PDict [])]" "[]" "sconst 7" "''Rock''" "[]" "''Queen''" "[]"
      "''A Night at the Opera''" "[]"]
    e
  show ?thesis by simp
qed

subsection \<open>C4: what a save leaves in the file\<close>

text \<open>
  C4 (atomic save), refuted as stated. The file holds \<open>{}\<close>, the document of an earlier
  save of the empty tree, and the global holds the tree of the scenario. A
  \<open>save_yggdrasil\<close> that stops right after \<open>open(filename, "w")\<close> leaves the file
  empty: neither the document saved before nor the complete new one.
\<close>

theorem save_not_atomic:
  "files saved_empty ''yggdrasil.json'' = Some ''{}'' \<and>
   files (save_interrupted 0 ''yggdrasil.json'' saved_empty) ''yggdrasil.json'' = Some [] \<and>
   files (save_interrupted 0 ''yggdrasil.json'' saved_empty) ''yggdrasil.json''
     \<noteq> files saved_empty ''yggdrasil.json'' \<and>
   files (save_interrupted 0 ''yggdrasil.json'' saved_empty) ''yggdrasil.json''
     \<noteq> files (save_yggdrasil ''yggdrasil.json'' saved_empty) ''yggdrasil.json''"
  using json_dumps_nonempty[of queen_tree]
  by (simp add: saved_empty_def save_interrupted_def save_yggdrasil_def fp_write_def open_w_def
      json_dumps_empty)

text \<open>
  C4 as amended. \<open>save_yggdrasil\<close> writes into the destination itself. A call that
  completes leaves exactly the new document there, whatever the file held. A call that
  stops after \<open>k\<close> characters leaves the first \<open>k\<close> characters of the new document, and
  nothing of the earlier content; from the length of the document on, that is the
  completed save. No other file and not the global is changed.
\<close>

theorem save_overwrites_in_place:
  "files (save_yggdrasil filename s) filename = Some (json_dumps (Yggdrasil s)) \<and>
   files (save_interrupted k filename s) filename = Some (take k (json_dumps (Yggdrasil s))) \<and>
   (length (json_dumps (Yggdrasil s)) \<le> k \<longrightarrow>
      save_interrupted k filename s = save_yggdrasil filename s) \<and>
   (\<forall>other. other \<noteq> filename \<longrightarrow>
      files (save_yggdrasil filename s) other = files s other \<and>
      files (save_interrupted k filename s) other = files s other) \<and>
   Yggdrasil (save_yggdrasil filename s) = Yggdrasil s \<and>
   Yggdrasil (save_interrupted k filename s) = Yggdrasil s"
  by (simp add: save_interrupted_def save_yggdrasil_def fp_write_def open_w_def)

theorem save_overwrites_in_place_witness:
  "files (save_yggdrasil ''yggdrasil.json'' saved_empty) ''yggdrasil.json'' =
     Some (json_dumps queen_tree) \<and>
   files (save_interrupted 12 ''yggdrasil.json'' saved_empty) ''yggdrasil.json'' =
     Some (take 12 (json_dumps queen_tree)) \<and>
   length (json_dumps (Yggdrasil saved_empty)) \<le> length (json_dumps queen_tree) \<and>
   save_interrupted (length (json_dumps queen_tree)) ''yggdrasil.json'' saved_empty =
     save_yggdrasil ''yggdrasil.json'' saved_empty \<and>
   ''backup.json'' \<noteq> ''yggdrasil.json'' \<and>
   files (save_yggdrasil ''yggdrasil.json'' saved_empty) ''backup.json'' = None"
proof -
  have Y: "Yggdrasil saved_empty = queen_tree" by (simp add: saved_empty_def)
  have f: "files saved_empty ''backup.json'' = None" by (simp add: saved_empty_def)
  from save_overwrites_in_place[of "''yggdrasil.json''" saved_empty 12]
    save_overwrites_in_place[of "''yggdrasil.json''" saved_empty "length (json_dumps queen_tree)"]
    Y f
  show ?thesis by simp
qed

subsection \<open>C5: loading with no file\<close>

text \<open>
  C5 (cold start). When the file does not exist, \<open>load_yggdrasil\<close> raises nothing and
  leaves the empty dictionary in the global; the files are as they were.
\<close>

theorem load_cold_start:
  assumes "files s filename = None"
  shows "load_yggdrasil filename s = (None, s\<lparr>Yggdrasil := PDict []\<rparr>)"
  using assms by (simp add: load_yggdrasil_def)

theorem load_cold_start_witness:
  "files \<lparr>Yggdrasil = queen_tree, files = Map.empty\<rparr> ''yggdrasil.json'' = None \<and>
   load_yggdrasil ''yggdrasil.json'' \<lparr>Yggdrasil = queen_tree, files = Map.empty\<rparr> =
     (None, \<lparr>Yggdrasil = PDict [], files = Map.empty\<rparr>)"
proof -
  have h: "files \<lparr>Yggdrasil = queen_tree, files = Map.empty\<rparr> ''yggdrasil.json'' = None" by simp
  from load_cold_start[OF h] h show ?thesis by simp
qed

subsection \<open>C6: loading a malformed file\<close>




subsection \<open>C7: adding twice on one path\<close>

text \<open>
  C7 (overwrite). On a catalog, two calls of \<open>add_song\<close> on the same path, with records
  \<open>r1\<close> then \<open>r2\<close>, both succeed; the lookup of the path then returns the second record
  (so the first is no longer reachable when the two differ); the result is a catalog, so
  the keys of every node are distinct; the second call adds no key at any prefix, the
  keys listed there are those after the first call; and the result is the tree a
  single call with \<open>r2\<close> gives.
\<close>

theorem add_song_overwrites:
  assumes cat: "is_catalog Y"
    and r1: "is_record r1 \<or> r1 = PNone" and r2: "is_record r2 \<or> r2 = PNone"
  shows "\<exists>Y1 Y2. add_song genre artist album song_name r1 Y = (None, Y1) \<and>
           add_song genre artist album song_name r2 Y1 = (None, Y2) \<and>
           lookup Y2 genre artist album song_name = Inr (if r2 = PNone then PDict [] else r2) \<and>
           is_catalog Y2 \<and>
           (\<forall>q. length q < 4 \<longrightarrow> enumerate_keys Y2 q = enumerate_keys Y1 q) \<and>
           add_song genre artist album song_name r2 Y = (None, Y2)"
proof -
  let ?p = "[genre, artist, album, song_name]"
  let ?s1 = "if r1 = PNone then PDict [] else r1"
  let ?s2 = "if r2 = PNone then PDict [] else r2"
  let ?Y1 = "put ?p ?s1 Y"
  let ?Y2 = "put ?p ?s2 ?Y1"
  have c4: "is_node 4 Y" using cat by (simp add: is_catalog_def)
  then have np: "is_node (length ?p + 0) Y" by (simp add: eval_nat_numeral)
  have s1: "is_node 0 ?s1" using stored_is_record[OF r1] stored_record[OF r1] by simp
  have s2: "is_node 0 ?s2" using stored_is_record[OF r2] stored_record[OF r2] by simp
  have np1: "is_node (length ?p + 0) ?Y1" using np s1 by (rule put_is_node)
  then have c41: "is_node 4 ?Y1" by (simp add: eval_nat_numeral)
  have np2: "is_node (length ?p + 0) ?Y2" using np1 s2 by (rule put_is_node)
  have a1: "add_song genre artist album song_name r1 Y = (None, ?Y1)"
    using add_song_put[OF c4] stored_record[OF r1] by simp
  have a2: "add_song genre artist album song_name r2 ?Y1 = (None, ?Y2)"
    using add_song_put[OF c41] stored_record[OF r2] by simp
  have look: "lookup ?Y2 genre artist album song_name = Inr ?s2"
    unfolding lookup_def using np1 by (rule subscript_put_self)
  have cat2: "is_catalog ?Y2" using np2 by (simp add: is_catalog_def eval_nat_numeral)
  have ex1: "subscript ?Y1 ?p = Inr ?s1" using np by (rule subscript_put_self)
  have ks: "\<forall>q. length q < 4 \<longrightarrow> enumerate_keys ?Y2 q = enumerate_keys ?Y1 q"
    using put_existing_keys[OF np1 ex1, of _ ?s2] by simp
  have once: "add_song genre artist album song_name r2 Y = (None, ?Y2)"
    using add_song_put[OF c4] stored_record[OF r2] put_put[OF np, of ?s2 ?s1] by simp
  from a1 a2 look cat2 ks once show ?thesis by simp
qed

theorem add_song_overwrites_witness:
  "is_catalog (PDict []) \<and> is_record bohemian_record \<and> is_record (PDict [(''duration_ms'', PInt 1)]) \<and>
   lookup (snd (add_song ''Rock'' ''Queen'' ''A Night at the Opera'' ''Bohemian Rhapsody''
                  (PDict [(''duration_ms'', PInt 1)])
             (snd (add_song ''Rock'' ''Queen'' ''A Night at the Opera'' ''Bohemian Rhapsody''
                     bohemian_record (PDict [])))))
      ''Rock'' ''Queen'' ''A Night at the Opera'' ''Bohemian Rhapsody'' =
     Inr (PDict [(''duration_ms'', PInt 1)])"
proof -
  have c: "is_catalog (PDict [])" by (simp add: is_catalog_def)
  have rr: "is_record bohemian_record" by (simp add: bohemian_record_def)
  then have r1: "is_record bohemian_record \<or> bohemian_record = PNone" by simp
  have r2: "is_record (PDict [(''duration_ms'', PInt 1)]) \<or> PDict [(''duration_ms'', PInt 1)] = PNone"
    by simp
  from add_song_overwrites[OF c r1 r2, of "''Rock''" "''Queen''" "''A Night at the Opera''"
      "''Bohemian Rhapsody''"] c rr
  show ?thesis by auto
qed

subsection \<open>C8: the error of a lookup\<close>

text \<open>
  C8 (lookup error), refuted as stated. On the empty tree the manual navigation of
  \<open>enter_bragi\<close> prints a message and returns: no segment of the path is in the tree,
  and nothing is raised. On the tree that holds only Rock, the lookup of Jazz raises
  \<open>KeyError\<close>, Python's error for a missing key: it is not a \<open>PathNotFoundError\<close>, a
  class the program does not define, under any of its names.
\<close>

theorem lookup_error_is_KeyError:
  "is_catalog (PDict []) \<and>
   manual_navigation (PDict []) ''Jazz'' ''Queen'' ''A Night at the Opera'' ''Bohemian Rhapsody''
     = Inr None \<and>
   enumerate_keys queen_tree [] = Inr [''Rock''] \<and>
   lookup queen_tree ''Jazz'' ''Queen'' ''A Night at the Opera'' ''Bohemian Rhapsody'' =
     Inl (KeyError ''Jazz'') \<and>
   manual_navigation queen_tree ''Jazz'' ''Queen'' ''A Night at the Opera'' ''Bohemian Rhapsody'' =
     Inl (KeyError ''Jazz'') \<and>
   ''PathNotFoundError'' \<notin> set (mro (KeyError ''Jazz''))"
  by (simp add: is_catalog_def manual_navigation_def enumerate_keys_def lookup_def queen_tree_def)

text \<open>
  C8 as amended. On a catalog, the lookup of a path (the subscript of line 166) raises
  Python's \<open>KeyError\<close> carrying the first segment that is not a key of the node reached
  so far: the genre when it is not a genre of the tree, otherwise the artist when it is
  not an artist of the genre node, and so on; when all four segments are keys it returns
  the record that the album node holds under the song. The manual navigation of
  \<open>enter_bragi\<close> returns without raising on the empty tree; on any other catalog its
  prompts raise at the same segment as the subscript, so it raises what the lookup
  raises and reads the record the lookup returns.
\<close>

theorem lookup_names_first_missing:
  assumes cat: "is_catalog Y"
  shows "\<exists>gs. Y = PDict gs \<and> enumerate_keys Y [] = Inr (map fst gs) \<and>
     (genre \<notin> set (map fst gs) \<longrightarrow>
        lookup Y genre artist album song = Inl (KeyError genre)) \<and>
     (\<forall>g. map_of gs genre = Some g \<longrightarrow> (\<exists>as. g = PDict as \<and>
        enumerate_keys Y [genre] = Inr (map fst as) \<and>
        (artist \<notin> set (map fst as) \<longrightarrow>
           lookup Y genre artist album song = Inl (KeyError artist)) \<and>
        (\<forall>a. map_of as artist = Some a \<longrightarrow> (\<exists>als. a = PDict als \<and>
           enumerate_keys Y [genre, artist] = Inr (map fst als) \<and>
           (album \<notin> set (map fst als) \<longrightarrow>
              lookup Y genre artist album song = Inl (KeyError album)) \<and>
           (\<forall>al. map_of als album = Some al \<longrightarrow> (\<exists>ss. al = PDict ss \<and>
              enumerate_keys Y [genre, artist, album] = Inr (map fst ss) \<and>
              (song \<notin> set (map fst ss) \<longrightarrow>
                 lookup Y genre artist album song = Inl (KeyError song)) \<and>
              (\<forall>r. map_of ss song = Some r \<longrightarrow>
                 lookup Y genre artist album song = Inr r \<and> is_record r))))))) \<and>
     manual_navigation Y genre artist album song =
       (if gs = [] then Inr None
        else case lookup Y genre artist album song of
               Inl e \<Rightarrow> Inl e
             | Inr metadata \<Rightarrow> Inr (Some metadata))"
proof -
  have n4: "is_node (Suc (Suc (Suc (Suc 0)))) Y"
    using cat by (simp add: is_catalog_def eval_nat_numeral)
  from is_node_children[OF n4] obtain gs where gs: "Y = PDict gs"
    and c3: "\<And>k c. map_of gs k = Some c \<Longrightarrow> is_node (Suc (Suc (Suc 0))) c"
    by blast
  have none: "k \<notin> set (map fst kvs) \<Longrightarrow> map_of kvs k = None" for k :: string and kvs :: "(string \<times> pyval) list"
    by (simp add: map_of_eq_None_iff)
  have nav: "manual_navigation Y genre artist album song =
       (if gs = [] then Inr None
        else case lookup Y genre artist album song of
               Inl e \<Rightarrow> Inl e
             | Inr metadata \<Rightarrow> Inr (Some metadata))"
    using manual_navigation_lookup[OF cat, of genre artist album song] gs
    by (simp add: py_bind_def)
  have L3: "\<exists>ss. al = PDict ss \<and>
              enumerate_keys Y [genre, artist, album] = Inr (map fst ss) \<and>
              (song \<notin> set (map fst ss) \<longrightarrow>
                 lookup Y genre artist album song = Inl (KeyError song)) \<and>
              (\<forall>r. map_of ss song = Some r \<longrightarrow>
                 lookup Y genre artist album song = Inr r \<and> is_record r)"
    if g: "map_of gs genre = Some (PDict as)" and a: "map_of as artist = Some (PDict als)"
      and al: "map_of als album = Some al" and n: "is_node (Suc 0) al" for as als al
  proof -
    from is_node_children[OF n] obtain ss where ss: "al = PDict ss"
      and c0: "\<And>k c. map_of ss k = Some c \<Longrightarrow> is_node 0 c" by blast
    show ?thesis
      using gs g a al ss c0 none[of song ss]
      by (auto simp: enumerate_keys_def lookup_def)
  qed
  have L2: "\<exists>als. a = PDict als \<and>
           enumerate_keys Y [genre, artist] = Inr (map fst als) \<and>
           (album \<notin> set (map fst als) \<longrightarrow>
              lookup Y genre artist album song = Inl (KeyError album)) \<and>
           (\<forall>al. map_of als album = Some al \<longrightarrow> (\<exists>ss. al = PDict ss \<and>
              enumerate_keys Y [genre, artist, album] = Inr (map fst ss) \<and>
              (song \<notin> set (map fst ss) \<longrightarrow>
                 lookup Y genre artist album song = Inl (KeyError song)) \<and>
              (\<forall>r. map_of ss song = Some r \<longrightarrow>
                 lookup Y genre artist album song = Inr r \<and> is_record r)))"
    if g: "map_of gs genre = Some (PDict as)" and a: "map_of as artist = Some a"
      and n: "is_node (Suc (Suc 0)) a" for as a
  proof -
    from is_node_children[OF n] obtain als where als: "a = PDict als"
      and c1: "\<And>k c. map_of als k = Some c \<Longrightarrow> is_node (Suc 0) c" by blast
    have e: "enumerate_keys Y [genre, artist] = Inr (map fst als)"
      using gs g a als by (simp add: enumerate_keys_def)
    have m: "album \<notin> set (map fst als) \<longrightarrow>
              lookup Y genre artist album song = Inl (KeyError album)"
      using gs g a als none[of album als] by (auto simp: lookup_def)
    from als e m L3[OF g a[unfolded als] _ c1] show ?thesis by blast
  qed
  have L1: "\<exists>as. g = PDict as \<and>
        enumerate_keys Y [genre] = Inr (map fst as) \<and>
        (artist \<notin> set (map fst as) \<longrightarrow>
           lookup Y genre artist album song = Inl (KeyError artist)) \<and>
        (\<forall>a. map_of as artist = Some a \<longrightarrow> (\<exists>als. a = PDict als \<and>
           enumerate_keys Y [genre, artist] = Inr (map fst als) \<and>
           (album \<notin> set (map fst als) \<longrightarrow>
              lookup Y genre artist album song = Inl (KeyError album)) \<and>
           (\<forall>al. map_of als album = Some al \<longrightarrow> (\<exists>ss. al = PDict ss \<and>
              enumerate_keys Y [genre, artist, album] = Inr (map fst ss) \<and>
              (song \<notin> set (map fst ss) \<longrightarrow>
                 lookup Y genre artist album song = Inl (KeyError song)) \<and>
              (\<forall>r. map_of ss song = Some r \<longrightarrow>
                 lookup Y genre artist album song = Inr r \<and> is_record r)))))"
    if g: "map_of gs genre = Some g" for g
  proof -
    from is_node_children[OF c3[OF g]] obtain as where as: "g = PDict as"
      and c2: "\<And>k c. map_of as k = Some c \<Longrightarrow> is_node (Suc (Suc 0)) c" by blast
    have e: "enumerate_keys Y [genre] = Inr (map fst as)"
      using gs g as by (simp add: enumerate_keys_def)
    have m: "artist \<notin> set (map fst as) \<longrightarrow>
           lookup Y genre artist album song = Inl (KeyError artist)"
      using gs g as none[of artist as] by (auto simp: lookup_def)
    from as e m L2[OF g[unfolded as] _ c2] show ?thesis by blast
  qed
  have e0: "enumerate_keys Y [] = Inr (map fst gs)" using gs by (simp add: enumerate_keys_def)
  have m0: "genre \<notin> set (map fst gs) \<longrightarrow>
        lookup Y genre artist album song = Inl (KeyError genre)"
    using gs none[of genre gs] by (auto simp: lookup_def)
  from gs e0 m0 L1 nav show ?thesis by blast
qed

theorem lookup_names_first_missing_witness:
  "is_catalog queen_tree \<and>
   ''Jazz'' \<notin> set [''Rock''] \<and>
   lookup queen_tree ''Jazz'' ''Queen'' ''A Night at the Opera'' ''Bohemian Rhapsody'' =
     Inl (KeyError ''Jazz'') \<and>
   manual_navigation queen_tree ''Rock'' ''Queen'' ''A Night at the Opera'' ''Bohemian Rhapsody'' =
     Inr (Some bohemian_record) \<and>
   manual_navigation (PDict []) ''Rock'' ''Queen'' ''A Night at the Opera'' ''Bohemian Rhapsody'' =
     Inr None"
proof -
  have e: "is_catalog (PDict [])" by (simp add: is_catalog_def)
  have l: "lookup queen_tree ''Rock'' ''Queen'' ''A Night at the Opera'' ''Bohemian Rhapsody'' =
     Inr bohemian_record" by (simp add: lookup_def queen_tree_def)
  from lookup_names_first_missing[OF queen_tree_catalog, of "''Jazz''" "''Queen''"
       "''A Night at the Opera''" "''Bohemian Rhapsody''"]
  have 1: "lookup queen_tree ''Jazz'' ''Queen'' ''A Night at the Opera'' ''Bohemian Rhapsody'' =
     Inl (KeyError ''Jazz'')"
    by (auto simp: queen_tree_def)
  from lookup_names_first_missing[OF queen_tree_catalog, of "''Rock''" "''Queen''"
       "''A Night at the Opera''" "''Bohemian Rhapsody''"] l
  have 2: "manual_navigation queen_tree ''Rock'' ''Queen'' ''A Night at the Opera''
     ''Bohemian Rhapsody'' = Inr (Some bohemian_record)"
    by (auto simp: queen_tree_def)
  from lookup_names_first_missing[OF e, of "''Rock''" "''Queen''"
       "''A Night at the Opera''" "''Bohemian Rhapsody''"]
  have 3: "manual_navigation (PDict []) ''Rock'' ''Queen'' ''A Night at the Opera''
     ''Bohemian Rhapsody'' = Inr None" by auto
  from queen_tree_catalog 1 2 3 show ?thesis by simp
qed

subsection \<open>C9: reloading over a tree in memory\<close>

text \<open>
  C9 (safe merge), refuted as stated. The global holds the tree of the scenario and the
  file the document of the empty tree. \<open>load_yggdrasil\<close> raises nothing and leaves the
  empty dictionary: the song that was in memory is lost, its lookup now raises
  \<open>KeyError\<close>.
\<close>

theorem load_discards_memory:
  "files saved_empty ''yggdrasil.json'' = Some ''{}'' \<and>
   lookup (Yggdrasil saved_empty) ''Rock'' ''Queen'' ''A Night at the Opera'' ''Bohemian Rhapsody''
     = Inr bohemian_record \<and>
   fst (load_yggdrasil ''yggdrasil.json'' saved_empty) = None \<and>
   Yggdrasil (snd (load_yggdrasil ''yggdrasil.json'' saved_empty)) = PDict [] \<and>
   lookup (Yggdrasil (snd (load_yggdrasil ''yggdrasil.json'' saved_empty)))
     ''Rock'' ''Queen'' ''A Night at the Opera'' ''Bohemian Rhapsody'' = Inl (KeyError ''Rock'')"
proof -
  have "json_loads (json_dumps (PDict [])) = Inr (PDict [])" by (rule json_roundtrip) simp
  then show ?thesis
    by (simp add: saved_empty_def load_yggdrasil_def lookup_def queen_tree_def json_dumps_empty)
qed

text \<open>
  C9 as amended. \<open>load_yggdrasil\<close> does not merge: it replaces the global by the
  document. When the file holds the document of a well-formed object, the call raises
  nothing and the global is that object: every lookup and every enumeration of keys
  gives what it gives on the document, so every path of the document is present with its
  record, and what was in memory only is gone.
\<close>

theorem load_replaces:
  assumes "files s filename = Some (json_dumps doc)" and "wf_pyval doc"
  shows "load_yggdrasil filename s = (None, s\<lparr>Yggdrasil := doc\<rparr>) \<and>
         (\<forall>genre artist album song.
            lookup (Yggdrasil (snd (load_yggdrasil filename s))) genre artist album song =
              lookup doc genre artist album song) \<and>
         (\<forall>prefix. enumerate_keys (Yggdrasil (snd (load_yggdrasil filename s))) prefix =
              enumerate_keys doc prefix)"
  using assms(1) json_roundtrip[OF assms(2)] by (simp add: load_yggdrasil_def)

theorem load_replaces_witness:
  "files (save_yggdrasil ''yggdrasil.json'' saved_empty) ''yggdrasil.json'' =
     Some (json_dumps queen_tree) \<and> wf_pyval queen_tree \<and>
   load_yggdrasil ''yggdrasil.json''
      ((save_yggdrasil ''yggdrasil.json'' saved_empty)\<lparr>Yggdrasil := PDict [(''Jazz'', PDict [])]\<rparr>) =
     (None, save_yggdrasil ''yggdrasil.json'' saved_empty)"
proof -
  let ?s = "(save_yggdrasil ''yggdrasil.json'' saved_empty)\<lparr>Yggdrasil := PDict [(''Jazz'', PDict [])]\<rparr>"
  have f: "files ?s ''yggdrasil.json'' = Some (json_dumps queen_tree)"
    by (simp add: files_save saved_empty_def)
  have w: "wf_pyval queen_tree" using queen_tree_catalog by (rule is_catalog_wf)
  have e: "?s\<lparr>Yggdrasil := queen_tree\<rparr> = save_yggdrasil ''yggdrasil.json'' saved_empty"
    by (simp add: save_yggdrasil_def fp_write_def open_w_def saved_empty_def)
  from load_replaces[OF f w] f w e show ?thesis by (simp add: files_save saved_empty_def)
qed

subsection \<open>C10: what \<open>add_song\<close> leaves alone\<close>

text \<open>
  C10 (frame). On a catalog, a path other than the one \<open>add_song\<close> is called with, and
  that led to a record before the call, leads to the same record after it; and every key
  listed at a prefix before the call is still listed there after it.
\<close>

theorem add_song_frame:
  assumes cat: "is_catalog Y"
    and other: "(genre', artist', album', song') \<noteq> (genre, artist, album, song_name)"
    and there: "lookup Y genre' artist' album' song' = Inr r"
  shows "lookup (snd (add_song genre artist album song_name metadata Y))
           genre' artist' album' song' = Inr r \<and>
         (\<forall>q ks. length q < 4 \<longrightarrow> enumerate_keys Y q = Inr ks \<longrightarrow>
            (\<exists>ks'. enumerate_keys (snd (add_song genre artist album song_name metadata Y)) q = Inr ks'
                \<and> set ks \<subseteq> set ks'))"
proof -
  let ?p = "[genre, artist, album, song_name]"
  let ?q = "[genre', artist', album', song']"
  let ?s = "if truthy metadata then metadata else PDict []"
  have c4: "is_node 4 Y" using cat by (simp add: is_catalog_def)
  then have np: "is_node (length ?p + 0) Y" by (simp add: eval_nat_numeral)
  have ne: "?q \<noteq> ?p" using other by simp
  have "subscript (put ?p ?s Y) ?q = Inr r"
    using np _ ne there[unfolded lookup_def] by (rule put_frame) simp
  then have "lookup (snd (add_song genre artist album song_name metadata Y))
           genre' artist' album' song' = Inr r"
    using add_song_put[OF c4] by (simp add: lookup_def)
  then show ?thesis using add_song_keeps_keys[OF cat] by blast
qed

theorem add_song_frame_witness:
  "is_catalog queen_tree \<and>
   (''Rock'', ''Queen'', ''A Night at the Opera'', ''Bohemian Rhapsody'') \<noteq>
     (''Rock'', ''Queen'', ''A Night at the Opera'', ''Love of My Life'') \<and>
   lookup queen_tree ''Rock'' ''Queen'' ''A Night at the Opera'' ''Bohemian Rhapsody'' =
     Inr bohemian_record \<and>
   lookup (snd (add_song ''Rock'' ''Queen'' ''A Night at the Opera'' ''Love of My Life'' PNone
                  queen_tree))
      ''Rock'' ''Queen'' ''A Night at the Opera'' ''Bohemian Rhapsody'' = Inr bohemian_record"
proof -
  have ne: "(''Rock'', ''Queen'', ''A Night at the Opera'', ''Bohemian Rhapsody'') \<noteq>
     (''Rock'', ''Queen'', ''A Night at the Opera'', ''Love of My Life'')" by simp
  have l: "lookup queen_tree ''Rock'' ''Queen'' ''A Night at the Opera'' ''Bohemian Rhapsody'' =
     Inr bohemian_record" by (simp add: lookup_def queen_tree_def)
  from add_song_frame[OF queen_tree_catalog ne l] queen_tree_catalog ne l
  show ?thesis by blast
qed

end
